theory Spec2Isabelle
  imports Main "HOL-Library.Word" "HOL-Library.Multiset"
begin

unbundle bit_operations_syntax

section \<open>FlexLog: a shallow embedding of the concurrent core\<close>

text \<open>
  The definitions below follow the C++ sources under \<^verbatim>\<open>FlexLog/src\<close>. Every operation is
  modelled as it runs on one thread with no interference: an atomic load or store is a
  read or write of the field, a compare-exchange succeeds exactly when the expected
  value is the stored one, and a retry loop around a compare-exchange runs its body
  once. \<^verbatim>\<open>size_t\<close> is 64 bits wide; where the source's arithmetic can wrap, the
  reduction modulo \<open>2 ^ 64\<close> is written out.
\<close>

subsection \<open>Level.h\<close>

datatype Level = Trace | Debug | Info | Warn | Error | Fatal | Off

text \<open>The enumerators' values: \<^verbatim>\<open>static_cast<uint8_t>(level)\<close>.\<close>

fun level_rank :: "Level \<Rightarrow> nat" where
  "level_rank Trace = 0"
| "level_rank Debug = 1"
| "level_rank Info = 2"
| "level_rank Warn = 3"
| "level_rank Error = 4"
| "level_rank Fatal = 5"
| "level_rank Off = 6"

definition level_less :: "Level \<Rightarrow> Level \<Rightarrow> bool" where
  "level_less lhs rhs = (level_rank lhs < level_rank rhs)"

definition level_ge :: "Level \<Rightarrow> Level \<Rightarrow> bool" where
  "level_ge lhs rhs = (level_rank lhs \<ge> level_rank rhs)"

subsection \<open>Core/StringStorage\<close>

text \<open>
  A \<^verbatim>\<open>const char*\<close> held by a storage object is null, points at an offset of the object's
  own inline buffer, or points at an offset of the heap block the object owns.
\<close>

datatype char_ptr = NullPtr | InlinePtr nat | HeapPtr nat

record string_view =
  sv_data :: char_ptr
  sv_size :: nat

record StringStorage =
  m_inlineBuffer :: "char list"
  m_heapBuffer :: "char list option"
  m_view :: string_view

definition INLINE_CAPACITY :: nat where
  "INLINE_CAPACITY = 64"

definition empty_view :: string_view where
  "empty_view = \<lparr>sv_data = NullPtr, sv_size = 0\<rparr>"

text \<open>
  \<^verbatim>\<open>std::memset(buf, c, n)\<close> and \<^verbatim>\<open>std::memcpy(dst, src, n)\<close> on the first \<open>n\<close> bytes. The
  block written keeps its size: a byte that would fall beyond its end is not part of
  the block afterwards, and where \<open>src\<close> has fewer than \<open>n\<close> bytes the rest of \<open>dst\<close>
  is left as it was.
\<close>

definition memset_bytes :: "char list \<Rightarrow> char \<Rightarrow> nat \<Rightarrow> char list" where
  "memset_bytes buf c n = take (length buf) (replicate n c @ drop n buf)"

definition memcpy_bytes :: "char list \<Rightarrow> char list \<Rightarrow> nat \<Rightarrow> char list" where
  "memcpy_bytes dst src n = take (length dst) (take n src @ drop (min n (length src)) dst)"

text \<open>
  \<^verbatim>\<open>new char[n]\<close>: a block of \<open>n\<close> bytes. Its initial contents are indeterminate in C++;
  \<open>Store\<close> overwrites all of them before the block is read.
\<close>

definition new_char_array :: "nat \<Rightarrow> char list" where
  "new_char_array n = replicate n (CHR 0x00)"

definition StringStorage_ctor :: StringStorage where
  "StringStorage_ctor =
     \<lparr>m_inlineBuffer = memset_bytes (replicate INLINE_CAPACITY (CHR 0x00)) (CHR 0x00) INLINE_CAPACITY,
      m_heapBuffer = None,
      m_view = empty_view\<rparr>"

definition IsInline :: "StringStorage \<Rightarrow> bool" where
  "IsInline s = (case sv_data (m_view s) of
                   InlinePtr off \<Rightarrow> off < INLINE_CAPACITY
                 | _ \<Rightarrow> False)"

definition Store :: "StringStorage \<Rightarrow> string \<Rightarrow> StringStorage" where
  "Store s str =
     (if length str < INLINE_CAPACITY then
        let b1 = memcpy_bytes (m_inlineBuffer s) str (length str);
            b2 = (if length str < INLINE_CAPACITY - 1 then b1[length str := CHR 0x00] else b1)
        in s\<lparr>m_inlineBuffer := b2,
              m_view := \<lparr>sv_data = InlinePtr 0, sv_size = length str\<rparr>\<rparr>
      else
        let h = memcpy_bytes (new_char_array (length str)) str (length str)
        in s\<lparr>m_heapBuffer := Some h,
              m_view := \<lparr>sv_data = HeapPtr 0, sv_size = length str\<rparr>\<rparr>)"

definition Create :: "string \<Rightarrow> StringStorage" where
  "Create str = Store StringStorage_ctor str"

definition View :: "StringStorage \<Rightarrow> string_view" where
  "View s = m_view s"

text \<open>The bytes a view of the storage object \<open>s\<close> denotes.\<close>

definition view_bytes :: "StringStorage \<Rightarrow> string_view \<Rightarrow> string" where
  "view_bytes s v =
     (case sv_data v of
        NullPtr \<Rightarrow> []
      | InlinePtr off \<Rightarrow> take (sv_size v) (drop off (m_inlineBuffer s))
      | HeapPtr off \<Rightarrow>
          (case m_heapBuffer s of
             None \<Rightarrow> []
           | Some h \<Rightarrow> take (sv_size v) (drop off h)))"

text \<open>
  \<^verbatim>\<open>char a[n]\<close> without an initialiser: \<open>n\<close> bytes, their contents whatever was there;
  \<open>junk\<close> stands for those contents.
\<close>

definition char_array :: "nat \<Rightarrow> char list \<Rightarrow> char list" where
  "char_array n junk = take n (junk @ replicate n (CHR 0x00))"

text \<open>
  The move constructor, from \<open>other\<close>: the new object and what is left of \<open>other\<close>.
  In the heap case the new object's inline buffer is not written; \<open>junk\<close> stands for
  what its 64 bytes hold.
\<close>

definition StringStorage_move :: "char list \<Rightarrow> StringStorage \<Rightarrow> StringStorage \<times> StringStorage" where
  "StringStorage_move junk other =
     (let this = (if IsInline other then
                    \<lparr>m_inlineBuffer = memcpy_bytes (char_array INLINE_CAPACITY junk)
                                         (m_inlineBuffer other) INLINE_CAPACITY,
                     m_heapBuffer = m_heapBuffer other,
                     m_view = \<lparr>sv_data = InlinePtr 0, sv_size = sv_size (m_view other)\<rparr>\<rparr>
                  else
                    \<lparr>m_inlineBuffer = char_array INLINE_CAPACITY junk,
                     m_heapBuffer = m_heapBuffer other,
                     m_view = m_view other\<rparr>)
      in (this, other\<lparr>m_heapBuffer := None, m_view := empty_view\<rparr>))"

text \<open>
  Move assignment destroys the target and move-constructs it in place from \<open>other\<close>;
  the bytes of the target's inline buffer stay where the constructor does not write.
\<close>

definition StringStorage_assign :: "StringStorage \<Rightarrow> StringStorage \<Rightarrow> StringStorage" where
  "StringStorage_assign this other = fst (StringStorage_move (m_inlineBuffer this) other)"

subsection \<open>Message.h\<close>

datatype MessageState = Pooled | Active | Releasing

record source_location =
  sl_file :: string
  sl_function :: string
  sl_line :: nat

text \<open>
  The alternatives of \<^verbatim>\<open>StructuredData::FieldValue\<close>; a \<^verbatim>\<open>double\<close> is kept as its 64 bits
  and a time point as its tick count.
\<close>

datatype FieldValue =
    FNull
  | FString string
  | FInt64 int
  | FUInt64 nat
  | FDouble "64 word"
  | FBool bool
  | FTime int
  | FStrings "string list"
  | FInt64s "int list"
  | FDoubles "64 word list"
  | FBools "bool list"

type_synonym StructuredData = "string \<rightharpoonup> FieldValue"

definition StructuredData_Clear :: "StructuredData \<Rightarrow> StructuredData" where
  "StructuredData_Clear d = Map.empty"

definition StructuredData_IsEmpty :: "StructuredData \<Rightarrow> bool" where
  "StructuredData_IsEmpty d = (d = Map.empty)"

text \<open>
  \<open>name\<close> is a view of the logger's name: the model keeps the characters it denotes.
  \<open>message\<close> is a view into \<open>messageStorage\<close>. \<open>logger\<close> is the address of the owning
  logger, \<open>None\<close> for \<^verbatim>\<open>nullptr\<close>.
\<close>

record Message =
  timestamp :: int
  name :: string
  level :: Level
  message :: string_view
  sourceLocation :: source_location
  messageStorage :: StringStorage
  logger :: "nat option"
  structuredData :: StructuredData
  refCount :: "32 word"
  state :: MessageState

definition Message_ctor :: Message where
  "Message_ctor =
     \<lparr>timestamp = 0,
      name = [],
      level = Info,
      message = empty_view,
      sourceLocation = \<lparr>sl_file = [], sl_function = [], sl_line = 0\<rparr>,
      messageStorage = StringStorage_ctor,
      logger = None,
      structuredData = Map.empty,
      refCount = 0,
      state = Pooled\<rparr>"

definition AddRef :: "Message \<Rightarrow> Message" where
  "AddRef m = m\<lparr>refCount := refCount m + 1\<rparr>"

text \<open>\<open>ReleaseRef\<close>: the result is whether the count was 1 before the decrement.\<close>

definition ReleaseRef :: "Message \<Rightarrow> bool \<times> Message" where
  "ReleaseRef m = (refCount m = 1, m\<lparr>refCount := refCount m - 1\<rparr>)"

definition IsActive :: "Message \<Rightarrow> bool" where
  "IsActive m = (state m = Active)"

subsection \<open>Core/MessagePool\<close>

record Chunk =
  objects :: "Message list"
  used :: "bool list"
  chunk_size :: nat

record ThreadLocalCache =
  messages :: "Message list"
  cache_used :: "bool list"
  usedCount :: nat

record MessagePool =
  s_localCache :: ThreadLocalCache
  m_chunks :: "Chunk list"
  m_size :: nat
  m_capacity :: nat
  m_peakUsage :: nat
  m_nextChunkIndex :: nat

definition CACHE_SIZE :: nat where
  "CACHE_SIZE = 64"

definition INITIAL_CAPACITY :: nat where
  "INITIAL_CAPACITY = 1024"

definition GROWTH_FACTOR :: nat where
  "GROWTH_FACTOR = 2"

text \<open>Arithmetic on \<^verbatim>\<open>size_t\<close>: the result modulo \<open>2 ^ 64\<close>.\<close>

definition size_t_wrap :: "nat \<Rightarrow> nat" where
  "size_t_wrap n = n mod 2 ^ 64"

definition size_t_add :: "nat \<Rightarrow> nat \<Rightarrow> nat" where
  "size_t_add a b = size_t_wrap (a + b)"

definition size_t_sub :: "nat \<Rightarrow> nat \<Rightarrow> nat" where
  "size_t_sub a b = size_t_wrap (a + 2 ^ 64 - b mod 2 ^ 64)"

definition size_t_mul :: "nat \<Rightarrow> nat \<Rightarrow> nat" where
  "size_t_mul a b = size_t_wrap (a * b)"

text \<open>
  A \<^verbatim>\<open>Message*\<close> handed out by the pool: a slot of the calling thread's cache, or slot
  \<open>i\<close> of chunk \<open>c\<close>. \<open>None\<close> is \<^verbatim>\<open>nullptr\<close>.
\<close>

datatype msg_ptr = LocalSlot nat | ChunkSlot nat nat

fun valid_ptr :: "MessagePool \<Rightarrow> msg_ptr \<Rightarrow> bool" where
  "valid_ptr p (LocalSlot i) = (i < CACHE_SIZE)"
| "valid_ptr p (ChunkSlot c i) = (c < length (m_chunks p) \<and> i < chunk_size (m_chunks p ! c))"

fun msg_at :: "MessagePool \<Rightarrow> msg_ptr \<Rightarrow> Message" where
  "msg_at p (LocalSlot i) = messages (s_localCache p) ! i"
| "msg_at p (ChunkSlot c i) = objects (m_chunks p ! c) ! i"

fun used_at :: "MessagePool \<Rightarrow> msg_ptr \<Rightarrow> bool" where
  "used_at p (LocalSlot i) = cache_used (s_localCache p) ! i"
| "used_at p (ChunkSlot c i) = used (m_chunks p ! c) ! i"

text \<open>A write through a \<^verbatim>\<open>Message*\<close>: \<open>f\<close> applied to the message stored in the slot.\<close>

fun map_msg :: "(Message \<Rightarrow> Message) \<Rightarrow> msg_ptr \<Rightarrow> MessagePool \<Rightarrow> MessagePool" where
  "map_msg f (LocalSlot i) p =
     p\<lparr>s_localCache := (s_localCache p)
          \<lparr>messages := (messages (s_localCache p))[i := f (messages (s_localCache p) ! i)]\<rparr>\<rparr>"
| "map_msg f (ChunkSlot c i) p =
     p\<lparr>m_chunks := (m_chunks p)
          [c := (m_chunks p ! c)\<lparr>objects := (objects (m_chunks p ! c))[i := f (objects (m_chunks p ! c) ! i)]\<rparr>]\<rparr>"

definition set_chunk_used :: "nat \<Rightarrow> nat \<Rightarrow> bool \<Rightarrow> MessagePool \<Rightarrow> MessagePool" where
  "set_chunk_used c i b p =
     p\<lparr>m_chunks := (m_chunks p)[c := (m_chunks p ! c)\<lparr>used := (used (m_chunks p ! c))[i := b]\<rparr>]\<rparr>"

definition set_cache_used :: "nat \<Rightarrow> bool \<Rightarrow> MessagePool \<Rightarrow> MessagePool" where
  "set_cache_used i b p =
     p\<lparr>s_localCache := (s_localCache p)\<lparr>cache_used := (cache_used (s_localCache p))[i := b]\<rparr>\<rparr>"

text \<open>
  The scan \<^verbatim>\<open>for (i = 0; i < n; ++i) if (used[i].compare_exchange_strong(false, true))\<close>:
  the first index whose flag is clear.
\<close>

primrec first_unused :: "bool list \<Rightarrow> nat option" where
  "first_unused [] = None"
| "first_unused (u # us) = (if \<not> u then Some 0 else map_option Suc (first_unused us))"

definition ThreadLocalCache_ctor :: ThreadLocalCache where
  "ThreadLocalCache_ctor =
     \<lparr>messages = replicate CACHE_SIZE Message_ctor,
      cache_used = replicate CACHE_SIZE False,
      usedCount = 0\<rparr>"

definition new_chunk :: "nat \<Rightarrow> Chunk" where
  "new_chunk chunkSize =
     \<lparr>objects = replicate chunkSize Message_ctor,
      used = replicate chunkSize False,
      chunk_size = chunkSize\<rparr>"

definition InitializeChunk :: "nat \<Rightarrow> MessagePool \<Rightarrow> MessagePool" where
  "InitializeChunk chunkSize p = p\<lparr>m_chunks := m_chunks p @ [new_chunk chunkSize]\<rparr>"

definition MessagePool_ctor :: MessagePool where
  "MessagePool_ctor =
     (InitializeChunk INITIAL_CAPACITY
        \<lparr>s_localCache = ThreadLocalCache_ctor, m_chunks = [], m_size = 0, m_capacity = 0,
         m_peakUsage = 0, m_nextChunkIndex = 0\<rparr>)
     \<lparr>m_capacity := INITIAL_CAPACITY\<rparr>"

definition AcquireFromThreadLocalCache :: "MessagePool \<Rightarrow> msg_ptr option \<times> MessagePool" where
  "AcquireFromThreadLocalCache p =
     (case first_unused (take CACHE_SIZE (cache_used (s_localCache p))) of
        Some i \<Rightarrow>
          (Some (LocalSlot i),
           (set_cache_used i True p)
             \<lparr>s_localCache := (s_localCache (set_cache_used i True p))
                \<lparr>usedCount := size_t_add (usedCount (s_localCache p)) 1\<rparr>\<rparr>)
      | None \<Rightarrow> (None, p))"

text \<open>The two stores every path of \<open>Acquire\<close> ends with.\<close>

definition activate :: "msg_ptr \<Rightarrow> MessagePool \<Rightarrow> MessagePool" where
  "activate a p = map_msg (\<lambda>m. m\<lparr>state := Active, refCount := 1\<rparr>) a p"

definition update_peak :: "MessagePool \<Rightarrow> MessagePool" where
  "update_peak p = (if m_size p > m_peakUsage p then p\<lparr>m_peakUsage := m_size p\<rparr> else p)"

text \<open>
  The medium path visits the chunks in the order \<open>cis\<close> and scans at most the first 16
  flags of each.
\<close>

fun scan_chunks_limited :: "Chunk list \<Rightarrow> nat list \<Rightarrow> (nat \<times> nat) option" where
  "scan_chunks_limited cs [] = None"
| "scan_chunks_limited cs (ci # cis) =
     (case first_unused (take (min (chunk_size (cs ! ci)) 16) (used (cs ! ci))) of
        Some j \<Rightarrow> Some (ci, j)
      | None \<Rightarrow> scan_chunks_limited cs cis)"

text \<open>The slow path visits every chunk from the first and scans all its flags.\<close>

fun scan_chunks_full :: "Chunk list \<Rightarrow> nat \<Rightarrow> (nat \<times> nat) option" where
  "scan_chunks_full [] k = None"
| "scan_chunks_full (c # cs) k =
     (case first_unused (take (chunk_size c) (used c)) of
        Some i \<Rightarrow> Some (k, i)
      | None \<Rightarrow> scan_chunks_full cs (Suc k))"

definition Acquire :: "MessagePool \<Rightarrow> msg_ptr option \<times> MessagePool" where
  "Acquire p =
     (case AcquireFromThreadLocalCache p of
        (Some a, p1) \<Rightarrow> (Some a, activate a p1)
      | (None, p1) \<Rightarrow>
          let numChunks = length (m_chunks p1);
              startChunkIndex = m_nextChunkIndex p1 mod numChunks;
              p2 = p1\<lparr>m_nextChunkIndex := size_t_add (m_nextChunkIndex p1) 1\<rparr>
          in case scan_chunks_limited (m_chunks p2)
                    (map (\<lambda>i. (startChunkIndex + i) mod numChunks) [0..<numChunks]) of
               Some (c, j) \<Rightarrow>
                 let p3 = set_chunk_used c j True p2;
                     p4 = update_peak (p3\<lparr>m_size := size_t_add (m_size p3) 1\<rparr>)
                 in (Some (ChunkSlot c j), activate (ChunkSlot c j) p4)
             | None \<Rightarrow>
                 (case AcquireFromThreadLocalCache p2 of
                    (Some a, p3) \<Rightarrow> (Some a, activate a p3)
                  | (None, p3) \<Rightarrow>
                      (case scan_chunks_full (m_chunks p3) 0 of
                         Some (c, i) \<Rightarrow>
                           let p4 = set_chunk_used c i True p3;
                               p5 = p4\<lparr>m_size := size_t_add (m_size p4) 1\<rparr>
                           in (Some (ChunkSlot c i), activate (ChunkSlot c i) p5)
                       | None \<Rightarrow>
                           let newChunkSize = size_t_mul (chunk_size (last (m_chunks p3))) GROWTH_FACTOR;
                               p4 = InitializeChunk newChunkSize p3;
                               p5 = p4\<lparr>m_capacity := size_t_add (m_capacity p4) newChunkSize\<rparr>;
                               back = length (m_chunks p5) - 1;
                               p6 = set_chunk_used back 0 True p5;
                               p7 = update_peak (p6\<lparr>m_size := size_t_add (m_size p6) 1\<rparr>)
                           in (Some (ChunkSlot back 0), activate (ChunkSlot back 0) p7))))"

definition ResetMessage :: "Message \<Rightarrow> Message" where
  "ResetMessage m =
     m\<lparr>messageStorage := StringStorage_assign (messageStorage m) StringStorage_ctor,
       message := empty_view,
       name := [],
       level := Info,
       logger := None,
       structuredData := StructuredData_Clear (structuredData m),
       state := Pooled,
       refCount := 0\<rparr>"

text \<open>
  \<open>TryReleaseToThreadLocalCache\<close>: the pointer lies in the calling thread's cache
  exactly when it is one of the cache's 64 slots.
\<close>

definition TryReleaseToThreadLocalCache :: "msg_ptr \<Rightarrow> MessagePool \<Rightarrow> bool \<times> MessagePool" where
  "TryReleaseToThreadLocalCache a p =
     (case a of
        LocalSlot i \<Rightarrow>
          if i < CACHE_SIZE then
            let p1 = map_msg ResetMessage a p;
                p2 = set_cache_used i False p1
            in (True, p2\<lparr>s_localCache := (s_localCache p2)
                           \<lparr>usedCount := size_t_sub (usedCount (s_localCache p2)) 1\<rparr>\<rparr>)
          else (False, p)
      | ChunkSlot c i \<Rightarrow> (False, p))"

definition FinalizeRelease :: "msg_ptr option \<Rightarrow> MessagePool \<Rightarrow> MessagePool" where
  "FinalizeRelease ptr p =
     (case ptr of
        None \<Rightarrow> p
      | Some a \<Rightarrow>
          if state (msg_at p a) \<noteq> Releasing then p
          else case TryReleaseToThreadLocalCache a p of
                 (True, p1) \<Rightarrow> p1
               | (False, p1) \<Rightarrow>
                   (case a of
                      ChunkSlot c i \<Rightarrow>
                        if c < length (m_chunks p1) \<and> i < chunk_size (m_chunks p1 ! c) then
                          let p2 = map_msg ResetMessage a p1;
                              was = used (m_chunks p2 ! c) ! i;
                              p3 = set_chunk_used c i False p2
                          in if was then p3\<lparr>m_size := size_t_sub (m_size p3) 1\<rparr> else p3
                        else p1
                    | LocalSlot i \<Rightarrow> p1))"

definition Release :: "msg_ptr option \<Rightarrow> MessagePool \<Rightarrow> MessagePool" where
  "Release ptr p =
     (case ptr of
        None \<Rightarrow> p
      | Some a \<Rightarrow>
          if state (msg_at p a) \<noteq> Active then p
          else
            let p1 = map_msg (\<lambda>m. m\<lparr>state := Releasing\<rparr>) a p;
                currentRefCount = refCount (msg_at p1 a)
            in if currentRefCount = 1
               then FinalizeRelease (Some a) (map_msg (\<lambda>m. m\<lparr>refCount := 0\<rparr>) a p1)
               else p1)"

subsection \<open>Core/HazardPointer\<close>

text \<open>
  Addresses are natural numbers, 0 for \<^verbatim>\<open>nullptr\<close>; a thread id is a natural number, 0
  for the default-constructed id that owns no slot. The retired list is the chain of
  \<open>RetiredNode\<close>s from its head; \<open>'d\<close> is what the model keeps of a node's deleter.
\<close>

record HazardPointerRecord =
  threadID :: nat
  hp_pointer :: nat

record 'd RetiredNode =
  pointer :: nat
  deleter :: 'd
  retireEpoch :: nat

record 'd HazardPointerDomain =
  m_hazardPointers :: "HazardPointerRecord list"
  m_retiredList :: "'d RetiredNode list"
  m_retireEpoch :: nat
  m_retiredCount :: nat

definition MAX_HAZARD_POINTERS :: nat where
  "MAX_HAZARD_POINTERS = 100"

definition SCAN_THRESHOLD :: nat where
  "SCAN_THRESHOLD = 1000"

definition HazardPointerDomain_ctor :: "'d HazardPointerDomain" where
  "HazardPointerDomain_ctor =
     \<lparr>m_hazardPointers = replicate MAX_HAZARD_POINTERS \<lparr>threadID = 0, hp_pointer = 0\<rparr>,
      m_retiredList = [],
      m_retireEpoch = 0,
      m_retiredCount = 0\<rparr>"

text \<open>
  The slot \<open>ProtectPointer\<close> takes for thread \<open>tid\<close>: the first, from index \<open>i\<close> on,
  that the thread owns already or that no thread owns.
\<close>

fun find_slot :: "nat \<Rightarrow> HazardPointerRecord list \<Rightarrow> nat \<Rightarrow> nat option" where
  "find_slot tid [] i = None"
| "find_slot tid (r # rs) i =
     (if threadID r = tid then Some i
      else if threadID r = 0 then Some i
      else find_slot tid rs (Suc i))"

datatype exn = RuntimeError string | NullDereference

text \<open>
  \<open>ProtectPointer\<close>: the pointer returned and the slot index written to \<open>hpIndex\<close>
  (\<open>None\<close> when it is left as it was), or the exception thrown.
\<close>

definition ProtectPointer ::
  "nat \<Rightarrow> nat \<Rightarrow> 'd HazardPointerDomain \<Rightarrow> exn + (nat \<times> nat option \<times> 'd HazardPointerDomain)" where
  "ProtectPointer ptr tid d =
     (if ptr = 0 then Inr (0, None, d)
      else case find_slot tid (take MAX_HAZARD_POINTERS (m_hazardPointers d)) 0 of
             Some i \<Rightarrow>
               Inr (ptr, Some i,
                    d\<lparr>m_hazardPointers := (m_hazardPointers d)[i := \<lparr>threadID = tid, hp_pointer = ptr\<rparr>]\<rparr>)
           | None \<Rightarrow> Inl (RuntimeError ''Out of hazard pointers''))"

definition UnprotectPointer :: "nat \<Rightarrow> 'd HazardPointerDomain \<Rightarrow> 'd HazardPointerDomain" where
  "UnprotectPointer hpIndex d =
     d\<lparr>m_hazardPointers := (m_hazardPointers d)[hpIndex := (m_hazardPointers d ! hpIndex)\<lparr>hp_pointer := 0\<rparr>]\<rparr>"

text \<open>
  \<^verbatim>\<open>std::lower_bound\<close> on the range of \<open>cnt\<close> elements from index \<open>first\<close>, and
  \<^verbatim>\<open>std::binary_search\<close> on the whole vector.
\<close>

function lower_bound :: "nat list \<Rightarrow> nat \<Rightarrow> nat \<Rightarrow> nat \<Rightarrow> nat" where
  "lower_bound xs first cnt v =
     (if cnt = 0 then first
      else let step = cnt div 2; it = first + step
           in if xs ! it < v then lower_bound xs (it + 1) (cnt - (step + 1)) v
              else lower_bound xs first step v)"
  by pat_completeness auto
termination
  by (relation "measure (\<lambda>(xs, first, cnt, v). cnt)") auto

definition binary_search :: "nat list \<Rightarrow> nat \<Rightarrow> bool" where
  "binary_search xs v =
     (let first = lower_bound xs 0 (length xs) v
      in first \<noteq> length xs \<and> \<not> v < xs ! first)"

text \<open>The non-null hazard pointers in slot order, sorted by address.\<close>

definition collect_hazards :: "'d HazardPointerDomain \<Rightarrow> nat list" where
  "collect_hazards d =
     sort (filter (\<lambda>hp. hp \<noteq> 0) (map hp_pointer (take MAX_HAZARD_POINTERS (m_hazardPointers d))))"

text \<open>
  The loop over the detached retired list: a node whose pointer is found in \<open>hpList\<close>
  is pushed on \<open>deferred\<close>, any other on \<open>toDelete\<close>.
\<close>

fun split_retired ::
  "nat list \<Rightarrow> 'd RetiredNode list \<Rightarrow> 'd RetiredNode list \<Rightarrow> 'd RetiredNode list
   \<Rightarrow> 'd RetiredNode list \<times> 'd RetiredNode list" where
  "split_retired hpList [] deferred toDelete = (deferred, toDelete)"
| "split_retired hpList (current # nodes) deferred toDelete =
     (if binary_search hpList (pointer current)
      then split_retired hpList nodes (current # deferred) toDelete
      else split_retired hpList nodes deferred (current # toDelete))"

text \<open>
  \<open>TryCleanup\<close>: the domain afterwards, and the nodes whose deleter was called on their
  pointer and which were freed, in that order.
\<close>

definition TryCleanup :: "'d HazardPointerDomain \<Rightarrow> 'd HazardPointerDomain \<times> 'd RetiredNode list" where
  "TryCleanup d =
     (let d1 = d\<lparr>m_retiredCount := 0\<rparr>;
          hpList = collect_hazards d1;
          nodes = m_retiredList d1;
          d2 = d1\<lparr>m_retiredList := []\<rparr>
      in if nodes = [] then (d2, [])
         else
           let (deferred, toDelete) = split_retired hpList nodes [] [];
               d3 = (if deferred \<noteq> []
                     then d2\<lparr>m_retiredList := deferred @ m_retiredList d2,
                             m_retiredCount := size_t_add (m_retiredCount d2) 1\<rparr>
                     else d2)
           in (d3, toDelete))"

definition RetireNode ::
  "nat \<Rightarrow> 'd \<Rightarrow> 'd HazardPointerDomain \<Rightarrow> 'd HazardPointerDomain \<times> 'd RetiredNode list" where
  "RetireNode ptr del d =
     (let retiredNode = \<lparr>pointer = ptr, deleter = del, retireEpoch = m_retireEpoch d\<rparr>;
          d1 = d\<lparr>m_retireEpoch := size_t_add (m_retireEpoch d) 1\<rparr>;
          d2 = d1\<lparr>m_retiredList := retiredNode # m_retiredList d1\<rparr>;
          oldCount = m_retiredCount d2;
          d3 = d2\<lparr>m_retiredCount := size_t_add oldCount 1\<rparr>
      in if oldCount \<ge> SCAN_THRESHOLD then TryCleanup d3 else (d3, []))"

subsection \<open>Core/RCUList.h\<close>

text \<open>
  A list owns the \<open>Node\<close>s it allocated: \<open>node_heap\<close> maps the address of each live node
  to its \<open>items\<close>, and \<open>next_node\<close> is the address \<^verbatim>\<open>new Node\<close> returns next. \<open>domain\<close>
  is the hazard domain the list retires to; the deleter of a retired node is
  \<^verbatim>\<open>delete static_cast<Node*>(p)\<close>, which removes the node from the heap.
\<close>

record 'a RCUList =
  m_head :: nat
  node_heap :: "nat \<rightharpoonup> 'a list"
  next_node :: nat
  domain :: "unit HazardPointerDomain"

definition RCUList_ctor :: "'a RCUList" where
  "RCUList_ctor =
     \<lparr>m_head = 0, node_heap = Map.empty, next_node = 1, domain = HazardPointerDomain_ctor\<rparr>"

definition new_Node :: "'a list \<Rightarrow> 'a RCUList \<Rightarrow> nat \<times> 'a RCUList" where
  "new_Node data l =
     (next_node l, l\<lparr>node_heap := (node_heap l)(next_node l \<mapsto> data), next_node := Suc (next_node l)\<rparr>)"

text \<open>\<^verbatim>\<open>node->items\<close>; reading through a pointer that is not a live node has no items to give.\<close>

definition node_items :: "'a RCUList \<Rightarrow> nat \<Rightarrow> 'a list" where
  "node_items l p = (case node_heap l p of Some xs \<Rightarrow> xs | None \<Rightarrow> [])"

definition delete_nodes :: "unit RetiredNode list \<Rightarrow> (nat \<rightharpoonup> 'a list) \<Rightarrow> (nat \<rightharpoonup> 'a list)" where
  "delete_nodes dead h = fold (\<lambda>n h'. h'(pointer n := None)) dead h"

definition RCU_RetireNode :: "nat \<Rightarrow> 'a RCUList \<Rightarrow> 'a RCUList" where
  "RCU_RetireNode node l =
     (let (d, dead) = RetireNode node () (domain l)
      in l\<lparr>domain := d, node_heap := delete_nodes dead (node_heap l)\<rparr>)"

text \<open>What a \<open>ReadHandle\<close> taken now exposes as \<open>Items()\<close>.\<close>

definition Items :: "'a RCUList \<Rightarrow> 'a list" where
  "Items l = (if m_head l = 0 then [] else node_items l (m_head l))"

definition Add :: "'a \<Rightarrow> 'a RCUList \<Rightarrow> 'a RCUList" where
  "Add item l =
     (let oldHead = m_head l;
          (newHead, l1) = new_Node ((if oldHead \<noteq> 0 then node_items l oldHead else []) @ [item]) l;
          l2 = l1\<lparr>m_head := newHead\<rparr>
      in if oldHead \<noteq> 0 then RCU_RetireNode oldHead l2 else l2)"

definition Remove :: "'a \<Rightarrow> 'a RCUList \<Rightarrow> bool \<times> 'a RCUList" where
  "Remove item l =
     (let oldHead = m_head l
      in if oldHead = 0 \<or> node_items l oldHead = [] then (False, l)
         else
           let found = list_ex (\<lambda>existingItem. existingItem = item) (node_items l oldHead)
           in if \<not> found then (False, l)
              else
                let (newHead, l1) = new_Node (filter (\<lambda>existingItem. \<not> (existingItem = item))
                                                (node_items l oldHead)) l;
                    l2 = l1\<lparr>m_head := newHead\<rparr>
                in (True, RCU_RetireNode oldHead l2))"

definition Clear :: "'a RCUList \<Rightarrow> 'a RCUList" where
  "Clear l =
     (let oldHead = m_head l;
          l1 = l\<lparr>m_head := 0\<rparr>
      in if oldHead \<noteq> 0 then RCU_RetireNode oldHead l1 else l1)"

subsection \<open>Core/MessageQueue\<close>

text \<open>
  Indices and sequence numbers are \<^verbatim>\<open>size_t\<close>, here 64-bit words, so that \<open>+\<close> wraps and
  \<open>AND\<close> with the index mask is the source's \<^verbatim>\<open>&\<close>. A \<^verbatim>\<open>Message*\<close> is a \<open>msg_ptr option\<close>.
\<close>

record Slot =
  sequence :: "64 word"
  slot_message :: "msg_ptr option"

record MessageQueue =
  m_slots :: "Slot list"
  mq_capacity :: "64 word"
  m_producerIndex :: "64 word"
  m_consumerIndex :: "64 word"
  mq_peakUsage :: "64 word"

definition DEFAULT_CAPACITY :: "64 word" where
  "DEFAULT_CAPACITY = 1024"

definition RoundUpPow2 :: "64 word \<Rightarrow> 64 word" where
  "RoundUpPow2 v =
     (let v0 = v - 1;
          v1 = v0 OR drop_bit 1 v0;
          v2 = v1 OR drop_bit 2 v1;
          v3 = v2 OR drop_bit 4 v2;
          v4 = v3 OR drop_bit 8 v3;
          v5 = v4 OR drop_bit 16 v4;
          v6 = v5 OR drop_bit 32 v5
      in v6 + 1)"

definition MessageQueue_ctor :: "64 word \<Rightarrow> MessageQueue" where
  "MessageQueue_ctor capacity =
     (let cap = RoundUpPow2 (if capacity = 0 then DEFAULT_CAPACITY else capacity)
      in \<lparr>m_slots = map (\<lambda>i. \<lparr>sequence = of_nat i, slot_message = None\<rparr>) [0..<unat cap],
          mq_capacity = cap,
          m_producerIndex = 0,
          m_consumerIndex = 0,
          mq_peakUsage = 0\<rparr>)"

definition IndexMask :: "MessageQueue \<Rightarrow> 64 word" where
  "IndexMask q = mq_capacity q - 1"

definition Capacity :: "MessageQueue \<Rightarrow> 64 word" where
  "Capacity q = mq_capacity q"

definition Size :: "MessageQueue \<Rightarrow> 64 word" where
  "Size q =
     (let producerPos = m_producerIndex q; consumerPos = m_consumerIndex q
      in if producerPos \<ge> consumerPos then producerPos - consumerPos
         else mq_capacity q - (consumerPos - producerPos))"

definition TryEnqueue :: "msg_ptr option \<Rightarrow> MessageQueue \<Rightarrow> bool \<times> MessageQueue" where
  "TryEnqueue msg q =
     (if msg = None then (False, q)
      else
        let positionToPublish = m_producerIndex q;
            index = unat (positionToPublish AND IndexMask q);
            slot = m_slots q ! index;
            sequenceExpected = positionToPublish
        in if sequence slot \<noteq> sequenceExpected then (False, q)
           else
             let q1 = q\<lparr>m_producerIndex := positionToPublish + 1\<rparr>;
                 q2 = q1\<lparr>m_slots := (m_slots q1)
                          [index := \<lparr>sequence = positionToPublish + 1, slot_message = msg\<rparr>]\<rparr>;
                 currentSize = Size q2
             in (True, if currentSize > mq_peakUsage q2 then q2\<lparr>mq_peakUsage := currentSize\<rparr> else q2))"

definition TryDequeue :: "MessageQueue \<Rightarrow> msg_ptr option \<times> MessageQueue" where
  "TryDequeue q =
     (let positionToConsume = m_consumerIndex q;
          index = unat (positionToConsume AND IndexMask q);
          slot = m_slots q ! index;
          sequenceExpected = positionToConsume + 1
      in if sequence slot \<noteq> sequenceExpected then (None, q)
         else
           let q1 = q\<lparr>m_consumerIndex := positionToConsume + 1\<rparr>;
               msg = slot_message slot
           in (msg, q1\<lparr>m_slots := (m_slots q1)
                         [index := \<lparr>sequence = positionToConsume + mq_capacity q1, slot_message = None\<rparr>]\<rparr>))"

text \<open>
  A run of the queue: each operation with its result. \<open>queue_run\<close> applies the
  operations in order and counts the enqueues that returned true and the dequeues that
  returned a message.
\<close>

datatype queue_op = Enqueue "msg_ptr option" | Dequeue

fun queue_run :: "queue_op list \<Rightarrow> MessageQueue \<times> nat \<times> nat \<Rightarrow> MessageQueue \<times> nat \<times> nat" where
  "queue_run [] s = s"
| "queue_run (Enqueue m # ops) (q, enq, deq) =
     (case TryEnqueue m q of
        (True, q') \<Rightarrow> queue_run ops (q', Suc enq, deq)
      | (False, q') \<Rightarrow> queue_run ops (q', enq, deq))"
| "queue_run (Dequeue # ops) (q, enq, deq) =
     (case TryDequeue q of
        (Some m, q') \<Rightarrow> queue_run ops (q', enq, Suc deq)
      | (None, q') \<Rightarrow> queue_run ops (q', enq, deq))"

subsection \<open>Core/LoggerThreadPool: the queue of a worker\<close>

text \<open>
  \<open>QueueItem::operator<\<close> compares priorities only. \<^verbatim>\<open>std::priority_queue<QueueItem>\<close>
  keeps its items in a vector: \<open>push\<close> is \<^verbatim>\<open>push_back\<close> then \<^verbatim>\<open>std::push_heap\<close>,
  \<open>top\<close> is the front, \<open>pop\<close> is \<^verbatim>\<open>std::pop_heap\<close> then \<^verbatim>\<open>pop_back\<close>. The two heap
  algorithms are not code of the repository; they are written here as the GNU and
  Microsoft standard libraries implement them (both move a hole, \<open>__push_heap\<close> up
  towards the root and \<open>__adjust_heap\<close> down along the larger child, and agree on every
  comparison).
\<close>

record QueueItem =
  item_message :: "msg_ptr option"
  priority :: nat

definition item_less :: "QueueItem \<Rightarrow> QueueItem \<Rightarrow> bool" where
  "item_less a other = (priority a < priority other)"

function push_heap_loop :: "QueueItem list \<Rightarrow> nat \<Rightarrow> nat \<Rightarrow> QueueItem \<Rightarrow> QueueItem list" where
  "push_heap_loop xs holeIndex topIndex v =
     (let parent = (holeIndex - 1) div 2
      in if holeIndex > topIndex \<and> item_less (xs ! parent) v
         then push_heap_loop (xs[holeIndex := xs ! parent]) parent topIndex v
         else xs[holeIndex := v])"
  by pat_completeness auto
termination
  by (relation "measure (\<lambda>(xs, holeIndex, topIndex, v). holeIndex)") auto

declare push_heap_loop.simps [simp del]

definition push_heap :: "QueueItem list \<Rightarrow> QueueItem list" where
  "push_heap xs = (if xs = [] then xs else push_heap_loop xs (length xs - 1) 0 (last xs))"

text \<open>
  The loop of \<open>__adjust_heap\<close> on the first \<open>len\<close> elements: the array, the hole and
  \<open>secondChild\<close> when it ends.
\<close>

function adjust_heap_loop ::
  "QueueItem list \<Rightarrow> nat \<Rightarrow> nat \<Rightarrow> nat \<Rightarrow> QueueItem list \<times> nat \<times> nat" where
  "adjust_heap_loop xs holeIndex secondChild len =
     (if secondChild < (len - 1) div 2 then
        let sc = 2 * (secondChild + 1);
            sc' = (if item_less (xs ! sc) (xs ! (sc - 1)) then sc - 1 else sc)
        in adjust_heap_loop (xs[holeIndex := xs ! sc']) sc' sc' len
      else (xs, holeIndex, secondChild))"
  by pat_completeness auto
termination
  by (relation "measure (\<lambda>(xs, holeIndex, secondChild, len). len - secondChild)") auto

declare adjust_heap_loop.simps [simp del]

definition adjust_heap :: "QueueItem list \<Rightarrow> nat \<Rightarrow> nat \<Rightarrow> QueueItem \<Rightarrow> QueueItem list" where
  "adjust_heap xs holeIndex len v =
     (let topIndex = holeIndex;
          (xs1, hole1, secondChild) = adjust_heap_loop xs holeIndex holeIndex len;
          (xs2, hole2) =
            (if len mod 2 = 0 \<and> secondChild = (len - 2) div 2
             then let sc = 2 * (secondChild + 1)
                  in (xs1[hole1 := xs1 ! (sc - 1)], sc - 1)
             else (xs1, hole1))
      in push_heap_loop xs2 hole2 topIndex v)"

definition pop_heap :: "QueueItem list \<Rightarrow> QueueItem list" where
  "pop_heap xs =
     (if length xs > 1 then
        let n = length xs - 1;
            v = xs ! n
        in adjust_heap (xs[n := xs ! 0]) 0 n v
      else xs)"

definition pq_push :: "QueueItem \<Rightarrow> QueueItem list \<Rightarrow> QueueItem list" where
  "pq_push x q = push_heap (q @ [x])"

definition pq_top :: "QueueItem list \<Rightarrow> QueueItem" where
  "pq_top q = q ! 0"

definition pq_pop :: "QueueItem list \<Rightarrow> QueueItem list" where
  "pq_pop q = butlast (pop_heap q)"

text \<open>
  What one worker does with its queue: producers push, and the worker, when the queue
  is not empty, takes \<open>top\<close> and pops. \<open>worker_run\<close> applies the steps in order and
  returns the queue and the items the worker took, first taken first.
\<close>

datatype worker_step = Push QueueItem | Take

fun worker_run :: "worker_step list \<Rightarrow> QueueItem list \<times> QueueItem list \<Rightarrow> QueueItem list \<times> QueueItem list" where
  "worker_run [] s = s"
| "worker_run (Push x # steps) (q, taken) = worker_run steps (pq_push x q, taken)"
| "worker_run (Take # steps) (q, taken) =
     (if q \<noteq> [] then worker_run steps (pq_pop q, taken @ [pq_top q])
      else worker_run steps (q, taken))"

subsection \<open>Core/AtomicString\<close>

record AtomicString =
  m_buffer :: "char list"
  m_length :: nat

definition MAX_LENGTH :: nat where
  "MAX_LENGTH = 128"

definition AtomicString_Store :: "string \<Rightarrow> AtomicString \<Rightarrow> AtomicString" where
  "AtomicString_Store str a =
     (let len = min (length str) (MAX_LENGTH - 1);
          b1 = memcpy_bytes (m_buffer a) str len;
          b2 = b1[len := CHR 0x00]
      in a\<lparr>m_buffer := b2, m_length := len\<rparr>)"

text \<open>The constructor from a string; the buffer's bytes beyond the stored ones are indeterminate.\<close>

definition AtomicString_ctor :: "string \<Rightarrow> AtomicString" where
  "AtomicString_ctor str =
     AtomicString_Store str \<lparr>m_buffer = replicate MAX_LENGTH (CHR 0x00), m_length = 0\<rparr>"

definition AtomicString_Load :: "AtomicString \<Rightarrow> string" where
  "AtomicString_Load a = take (m_length a) (m_buffer a)"

definition AtomicString_Compare :: "AtomicString \<Rightarrow> string \<Rightarrow> bool" where
  "AtomicString_Compare a str =
     (let len = m_length a
      in if len \<noteq> length str then False
         else take len (m_buffer a) = take len str)"

subsection \<open>Logger.h, LogManager.h, Core/LoggerThreadPool.h: the objects\<close>

datatype LogFormat =
  Pattern | CloudWatch | Elasticsearch | GELF | JSON | Logstash | OpenTelemetry | Splunk | XML

text \<open>
  A sink is known by its address (what a \<^verbatim>\<open>std::shared_ptr<Sink>\<close> compares by), 0 for
  null. Of a logger's \<open>Format\<close> the model keeps the \<open>LogFormat\<close> selector.
\<close>

record Logger =
  m_name :: string
  m_level :: Level
  m_logFormat :: LogFormat
  m_sinkList :: "nat RCUList"
  m_droppedMessages :: "64 word"
  m_totalProcessed :: "64 word"

definition Logger_ctor :: "string \<Rightarrow> Level \<Rightarrow> Logger" where
  "Logger_ctor nm lvl =
     \<lparr>m_name = nm, m_level = lvl, m_logFormat = Pattern, m_sinkList = RCUList_ctor,
      m_droppedMessages = 0, m_totalProcessed = 0\<rparr>"

text \<open>
  An entry of the registry, with its own address; it owns its logger. A bucket is the
  chain of its entries from the head. A retired entry lives on in the retired list
  of the hazard domain, as the thing its deleter is to delete.
\<close>

record LoggerEntry =
  entry_addr :: nat
  entry_name :: string
  entry_logger :: Logger

record LoggerMap =
  m_buckets :: "LoggerEntry list list"

record QueueData =
  messageQueue :: "QueueItem list"
  pendingMessages :: nat

datatype thread = Joinable | NotJoinable

record LoggerThreadPool =
  m_running :: bool
  m_flushing :: bool
  m_workers :: "thread list"
  m_queues :: "QueueData list"
  m_nextQueueIndex :: nat

datatype LogManagerState = Uninitialized | Initializing | Running | ShuttingDown | ShutDown

text \<open>
  The singleton. Two fields are not members of the class: \<open>clock\<close> is the reading of
  \<^verbatim>\<open>steady_clock\<close> in milliseconds, and \<open>cerr\<close> holds the lines written to
  \<^verbatim>\<open>std::cerr\<close>, oldest first.
\<close>

record LogManager =
  m_state :: LogManagerState
  m_loggerMap :: "LoggerMap option"
  m_globalSinks :: "nat RCUList"
  m_defaultLevel :: Level
  m_defaultFormat :: LogFormat
  m_defaultLoggerName :: AtomicString
  m_threadPool :: "LoggerThreadPool option"
  m_messagePool :: "MessagePool option"
  m_hazardDomain :: "LoggerEntry HazardPointerDomain"
  m_configVersion :: nat
  clock :: int
  cerr :: "string list"

datatype Result = Ok | Err nat string

definition LogManager_ctor :: LogManager where
  "LogManager_ctor =
     \<lparr>m_state = Uninitialized,
      m_loggerMap = None,
      m_globalSinks = RCUList_ctor,
      m_defaultLevel = Info,
      m_defaultFormat = Pattern,
      m_defaultLoggerName = AtomicString_ctor ''main'',
      m_threadPool = None,
      m_messagePool = None,
      m_hazardDomain = HazardPointerDomain_ctor,
      m_configVersion = 0,
      clock = 0,
      cerr = []\<rparr>"

fun GetStateName :: "LogManagerState \<Rightarrow> string" where
  "GetStateName Uninitialized = ''Uninitialized''"
| "GetStateName Initializing = ''Initializing''"
| "GetStateName Running = ''Running''"
| "GetStateName ShuttingDown = ''ShuttingDown''"
| "GetStateName ShutDown = ''ShutDown''"

subsection \<open>Core/HazardPointer: the class HazardPointer\<close>

text \<open>\<open>tid\<close> is the id of the calling thread.\<close>

record HazardPointer =
  m_index :: nat
  m_active :: bool

definition HazardPointer_ctor :: HazardPointer where
  "HazardPointer_ctor = \<lparr>m_index = 0, m_active = False\<rparr>"

definition Protect ::
  "nat \<Rightarrow> nat \<Rightarrow> HazardPointer \<Rightarrow> 'd HazardPointerDomain
     \<Rightarrow> exn + (nat \<times> HazardPointer \<times> 'd HazardPointerDomain)" where
  "Protect ptr tid hp d =
     (if ptr = 0 then Inr (0, hp, d)
      else case ProtectPointer ptr tid d of
             Inl e \<Rightarrow> Inl e
           | Inr (p, idx, d1) \<Rightarrow>
               Inr (ptr, \<lparr>m_index = (case idx of Some i \<Rightarrow> i | None \<Rightarrow> m_index hp), m_active = True\<rparr>, d1))"

definition Reset :: "HazardPointer \<Rightarrow> 'd HazardPointerDomain \<Rightarrow> HazardPointer \<times> 'd HazardPointerDomain" where
  "Reset hp d =
     (if m_active hp then (hp\<lparr>m_active := False\<rparr>, UnprotectPointer (m_index hp) d) else (hp, d))"

definition HazardPointer_dtor :: "HazardPointer \<Rightarrow> 'd HazardPointerDomain \<Rightarrow> 'd HazardPointerDomain" where
  "HazardPointer_dtor hp d = (if m_active hp then UnprotectPointer (m_index hp) d else d)"

text \<open>Move assignment from another object: this object afterwards, and the domain.\<close>

definition HazardPointer_move_assign ::
  "HazardPointer \<Rightarrow> HazardPointer \<Rightarrow> 'd HazardPointerDomain \<Rightarrow> HazardPointer \<times> 'd HazardPointerDomain" where
  "HazardPointer_move_assign this other d = (case Reset this d of (this1, d1) \<Rightarrow> (other, d1))"

subsection \<open>LogManager.cpp: LoggerMap\<close>

definition NUM_BUCKETS :: nat where
  "NUM_BUCKETS = 256"

definition FNV_OFFSET_BASIS :: "64 word" where
  "FNV_OFFSET_BASIS = 0xCBF29CE484222325"

definition FNV_PRIME :: "64 word" where
  "FNV_PRIME = 0x100000001B3"

definition GetBucketIndex :: "string \<Rightarrow> nat" where
  "GetBucketIndex nm =
     (if nm = [] then 0
      else
        let hash = fold (\<lambda>c h. (h XOR of_nat (of_char c)) * FNV_PRIME) nm FNV_OFFSET_BASIS;
            hash1 = hash XOR drop_bit 32 hash
        in unat (hash1 AND (of_nat NUM_BUCKETS - 1)))"

definition LoggerMap_ctor :: LoggerMap where
  "LoggerMap_ctor = \<lparr>m_buckets = replicate NUM_BUCKETS []\<rparr>"

text \<open>\<open>Insert\<close> of a logger in a new entry at address \<open>a\<close>: the entry becomes the head of its bucket.\<close>

definition Insert :: "nat \<Rightarrow> string \<Rightarrow> Logger \<Rightarrow> LoggerMap \<Rightarrow> LoggerMap" where
  "Insert a nm lg lm =
     (let bucketIndex = GetBucketIndex nm;
          entry = \<lparr>entry_addr = a, entry_name = nm, entry_logger = lg\<rparr>
      in lm\<lparr>m_buckets := (m_buckets lm)[bucketIndex := entry # (m_buckets lm ! bucketIndex)]\<rparr>)"

text \<open>
  The loop of \<open>Remove\<close> over a bucket: \<open>passed\<close> are the entries passed, the last of them
  \<open>prev\<close>, and the second list starts at \<open>current\<close>. With no other thread at work the
  head is as it was read and each compare-exchange succeeds. The result is the entry
  unlinked, if any, the chain afterwards, the two hazard pointers and the domain; when
  \<open>Protect\<close> throws, the exception and the domain after the two destructors.
\<close>

fun Remove_loop ::
  "string \<Rightarrow> nat \<Rightarrow> LoggerEntry list \<Rightarrow> LoggerEntry list \<Rightarrow> HazardPointer \<Rightarrow> HazardPointer
     \<Rightarrow> LoggerEntry HazardPointerDomain
     \<Rightarrow> (exn \<times> LoggerEntry HazardPointerDomain)
         + (LoggerEntry option \<times> LoggerEntry list \<times> HazardPointer \<times> HazardPointer
            \<times> LoggerEntry HazardPointerDomain)" where
  "Remove_loop nm tid passed [] hpCurrent hpNext d = Inr (None, passed, hpCurrent, hpNext, d)"
| "Remove_loop nm tid passed (current # rest) hpCurrent hpNext d =
     (case Protect (entry_addr current) tid hpCurrent d of
        Inl e \<Rightarrow> Inl (e, HazardPointer_dtor hpCurrent (HazardPointer_dtor hpNext d))
      | Inr (cur, hpCurrent1, d1) \<Rightarrow>
          (case Protect (case rest of [] \<Rightarrow> 0 | n # ns \<Rightarrow> entry_addr n) tid hpNext d1 of
             Inl e \<Rightarrow> Inl (e, HazardPointer_dtor hpCurrent1 (HazardPointer_dtor hpNext d1))
           | Inr (next, hpNext1, d2) \<Rightarrow>
               if entry_name current = nm then
                 (case Reset hpCurrent1 d2 of
                    (hpCurrent2, d3) \<Rightarrow>
                      (case RetireNode (entry_addr current) current d3 of
                         (d4, deleted) \<Rightarrow> Inr (Some current, passed @ rest, hpCurrent2, hpNext1, d4)))
               else
                 (case HazardPointer_move_assign hpCurrent1 hpNext1 d2 of
                    (hpCurrent2, d3) \<Rightarrow>
                      Remove_loop nm tid (passed @ [current]) rest hpCurrent2 HazardPointer_ctor d3)))"

text \<open>\<open>Remove\<close>: the exception if one was thrown, the value returned, the map and the domain.\<close>

definition LoggerMap_Remove ::
  "string \<Rightarrow> nat \<Rightarrow> LoggerMap \<Rightarrow> LoggerEntry HazardPointerDomain
     \<Rightarrow> exn option \<times> bool \<times> LoggerMap \<times> LoggerEntry HazardPointerDomain" where
  "LoggerMap_Remove nm tid lm d =
     (let bucketIndex = GetBucketIndex nm
      in case Remove_loop nm tid [] (m_buckets lm ! bucketIndex) HazardPointer_ctor HazardPointer_ctor d of
           Inl (e, d1) \<Rightarrow> (Some e, False, lm, d1)
         | Inr (removed, chain, hpCurrent, hpNext, d1) \<Rightarrow>
             (None, removed \<noteq> None,
              lm\<lparr>m_buckets := (m_buckets lm)[bucketIndex := chain]\<rparr>,
              HazardPointer_dtor hpCurrent (HazardPointer_dtor hpNext d1)))"

text \<open>\<open>Clear\<close> empties every bucket and deletes the entries.\<close>

definition LoggerMap_Clear :: "LoggerMap \<Rightarrow> LoggerMap" where
  "LoggerMap_Clear lm = lm\<lparr>m_buckets := map (\<lambda>bucket. []) (m_buckets lm)\<rparr>"

subsection \<open>Core/LoggerThreadPool.cpp\<close>

text \<open>
  The constructor starts one worker for each queue. What the workers do is not written
  out here: where the calling thread sleeps or joins, the pool and the manager change
  by a function \<open>env\<close>, which stands for the steps the other threads take meanwhile and
  is arbitrary in every theorem below. A sleep advances the clock by at least its
  duration; the clock never goes back.
\<close>

type_synonym world = "LoggerThreadPool \<times> LogManager"

definition LoggerThreadPool_ctor :: "nat \<Rightarrow> LoggerThreadPool" where
  "LoggerThreadPool_ctor threadCount =
     (let n = max 1 threadCount
      in \<lparr>m_running = True, m_flushing = False, m_workers = replicate n Joinable,
          m_queues = replicate n \<lparr>messageQueue = [], pendingMessages = 0\<rparr>,
          m_nextQueueIndex = 0\<rparr>)"

definition wait :: "(world \<Rightarrow> world) \<Rightarrow> int \<Rightarrow> world \<Rightarrow> world" where
  "wait env duration w =
     (case env w of (tp, m) \<Rightarrow> (tp, m\<lparr>clock := max (clock m) (clock (snd w) + max 0 duration)\<rparr>))"

definition GetPendingMessageCount :: "LoggerThreadPool \<Rightarrow> nat" where
  "GetPendingMessageCount tp = fold (\<lambda>queueData c. size_t_add c (pendingMessages queueData)) (m_queues tp) 0"

function to_string :: "nat \<Rightarrow> string" where
  "to_string n =
     (if n < 10 then [char_of (48 + n)] else to_string (n div 10) @ [char_of (48 + n mod 10)])"
  by pat_completeness auto
termination
  by (relation "measure id") auto

text \<open>The polling loop of \<open>Flush\<close>, from the reading of the clock on.\<close>

function Flush_loop :: "(world \<Rightarrow> world) \<Rightarrow> int \<Rightarrow> world \<Rightarrow> world" where
  "Flush_loop env endTime w =
     (if clock (snd w) < endTime then
        let w1 = wait env 10 w
        in if GetPendingMessageCount (fst w1) = 0 then w1 else Flush_loop env endTime w1
      else
        (fst w, (snd w)\<lparr>cerr := cerr (snd w) @
           [''Warning: ThreadPool flush timed out with '' @ to_string (GetPendingMessageCount (fst w))
            @ '' messages remaining'']\<rparr>))"
  by pat_completeness auto
termination
  by (relation "measure (\<lambda>(env, endTime, w). nat (endTime - clock (snd w)))")
     (auto simp: wait_def split: prod.splits)

definition Flush :: "(world \<Rightarrow> world) \<Rightarrow> int \<Rightarrow> world \<Rightarrow> world" where
  "Flush env timeout w =
     (let endTime = clock (snd w) + timeout;
          totalPending = GetPendingMessageCount (fst w)
      in if totalPending = 0 then w else Flush_loop env endTime w)"

text \<open>The loop of \<open>Shutdown\<close> over the workers, from worker \<open>i\<close> on.\<close>

fun join_workers :: "(world \<Rightarrow> world) \<Rightarrow> int \<Rightarrow> nat \<Rightarrow> nat \<Rightarrow> world \<Rightarrow> world" where
  "join_workers env joinEndTime 0 i w = w"
| "join_workers env joinEndTime (Suc k) i w =
     (if i < length (m_workers (fst w)) \<and> m_workers (fst w) ! i = Joinable then
        let remainingTime = joinEndTime - clock (snd w)
        in if remainingTime \<le> 0 then
             join_workers env joinEndTime k (Suc i)
               ((fst w)\<lparr>m_workers := (m_workers (fst w))[i := NotJoinable]\<rparr>,
                (snd w)\<lparr>cerr := cerr (snd w) @ [''Warning: Thread join timeout in ThreadPool shutdown'']\<rparr>)
           else
             (case wait env 0 w of
                (tp, m) \<Rightarrow>
                  join_workers env joinEndTime k (Suc i) (tp\<lparr>m_workers := (m_workers tp)[i := NotJoinable]\<rparr>, m))
      else join_workers env joinEndTime k (Suc i) w)"

definition LoggerThreadPool_Shutdown :: "(world \<Rightarrow> world) \<Rightarrow> bool \<Rightarrow> int \<Rightarrow> world \<Rightarrow> world" where
  "LoggerThreadPool_Shutdown env flushBeforeShutdown timeout w =
     (let wasRunning = m_running (fst w);
          w1 = ((fst w)\<lparr>m_running := False\<rparr>, snd w)
      in if \<not> wasRunning then w1
         else
           let w2 = (if flushBeforeShutdown
                     then (case Flush env timeout ((fst w1)\<lparr>m_flushing := True\<rparr>, snd w1) of
                             (tp, m) \<Rightarrow> (tp\<lparr>m_flushing := False\<rparr>, m))
                     else w1);
               joinEndTime = clock (snd w2) + timeout
           in join_workers env joinEndTime (length (m_workers (fst w2))) 0 w2)"

definition SelectQueue :: "LoggerThreadPool \<Rightarrow> nat \<times> LoggerThreadPool" where
  "SelectQueue tp =
     (if length (m_queues tp) = 1 then (0, tp)
      else (m_nextQueueIndex tp mod length (m_queues tp),
            tp\<lparr>m_nextQueueIndex := size_t_add (m_nextQueueIndex tp) 1\<rparr>))"

subsection \<open>LogManager.cpp\<close>

text \<open>
  \<open>EnsureMessagePoolInitialized\<close>: the manager with its pool in place, or the
  exception thrown. \<open>on_message_pool f\<close> is a call \<^verbatim>\<open>GetMessagePool().f(...)\<close>: \<open>f\<close> runs
  on the pool and returns its result with the pool afterwards.
\<close>

definition EnsureMessagePoolInitialized :: "LogManager \<Rightarrow> exn + LogManager" where
  "EnsureMessagePoolInitialized m =
     (if m_state m = ShutDown
      then Inl (RuntimeError (''Cannot access message pool: LogManager in state '' @ GetStateName (m_state m)))
      else if m_messagePool m = None then Inr (m\<lparr>m_messagePool := Some MessagePool_ctor\<rparr>)
      else Inr m)"

definition on_message_pool ::
  "(MessagePool \<Rightarrow> 'r \<times> MessagePool) \<Rightarrow> LogManager \<Rightarrow> exn + ('r \<times> LogManager)" where
  "on_message_pool f m =
     (case EnsureMessagePoolInitialized m of
        Inl e \<Rightarrow> Inl e
      | Inr m1 \<Rightarrow>
          (case m_messagePool m1 of
             None \<Rightarrow> Inl NullDereference
           | Some p \<Rightarrow> (case f p of (r, p1) \<Rightarrow> Inr (r, m1\<lparr>m_messagePool := Some p1\<rparr>))))"

text \<open>\<open>hw\<close> is what \<^verbatim>\<open>std::thread::hardware_concurrency()\<close> returns.\<close>

definition EnsureThreadPoolInitialized :: "nat \<Rightarrow> LogManager \<Rightarrow> LogManager" where
  "EnsureThreadPoolInitialized hw m =
     (if m_state m \<noteq> Initializing \<and> m_state m \<noteq> Running then m
      else if m_threadPool m = None
           then m\<lparr>m_threadPool := Some (LoggerThreadPool_ctor (max 1 (hw div 2)))\<rparr>
           else m)"

definition GetDefaultLoggerName :: "LogManager \<Rightarrow> string" where
  "GetDefaultLoggerName m = AtomicString_Load (m_defaultLoggerName m)"

text \<open>
  \<open>Shutdown\<close>. The compare-exchange on the state succeeds exactly when the state is
  \<open>Running\<close>. In the \<^verbatim>\<open>try\<close> block the thread pool, when there is one, is flushed if
  asked, taken out of the manager, shut down and deleted (its destructor calls
  \<open>Shutdown\<close> with the default arguments); then the registry and the global sinks are
  cleared. Nothing the calling thread does there throws a \<^verbatim>\<open>std::exception\<close>, so
  the handler that restores \<open>Running\<close> and returns \<open>Err(2, ...)\<close> is never entered;
  \<open>m_loggerMap\<close> is dereferenced unchecked.
\<close>

definition delete_thread_pool :: "(world \<Rightarrow> world) \<Rightarrow> world \<Rightarrow> LogManager" where
  "delete_thread_pool env w = snd (LoggerThreadPool_Shutdown env True 5000 w)"

definition Shutdown :: "(world \<Rightarrow> world) \<Rightarrow> bool \<Rightarrow> int \<Rightarrow> LogManager \<Rightarrow> exn + (Result \<times> LogManager)" where
  "Shutdown env waitForCompletion timeout m =
     (if m_state m = Running then
        let m1 = m\<lparr>m_state := ShuttingDown\<rparr>;
            m2 = (if waitForCompletion
                  then (case m_threadPool m1 of
                          None \<Rightarrow> m1
                        | Some tp \<Rightarrow>
                            (case Flush env timeout (tp, m1) of
                               (tp1, m') \<Rightarrow> m'\<lparr>m_threadPool := Some tp1\<rparr>))
                  else m1);
            threadPool = m_threadPool m2;
            m3 = m2\<lparr>m_threadPool := None\<rparr>;
            m4 = (case threadPool of
                    None \<Rightarrow> m3
                  | Some tp \<Rightarrow>
                      delete_thread_pool env (LoggerThreadPool_Shutdown env waitForCompletion timeout (tp, m3)))
        in case m_loggerMap m4 of
             None \<Rightarrow> Inl NullDereference
           | Some lm \<Rightarrow>
               let m5 = m4\<lparr>m_loggerMap := Some (LoggerMap_Clear lm)\<rparr>;
                   m6 = m5\<lparr>m_globalSinks := Clear (m_globalSinks m5)\<rparr>;
                   m7 = m6\<lparr>m_state := ShutDown\<rparr>
               in Inr (Ok, m7)
      else if m_state m = Uninitialized \<or> m_state m = ShutDown then
        Inr (Err 1 (''LogManager not initialized or already shut down, current state: ''
                    @ GetStateName (m_state m)), m)
      else if m_state m = Initializing then
        Inr (Err 1 (''Cannot shutdown LogManager while it'' @ [CHR 0x27] @ ''s being initialized''), m)
      else
        Inr (Err 1 ''LogManager is already shutting down'', m))"

text \<open>
  \<open>RemoveLogger\<close>, called by thread \<open>tid\<close>: the exception that left it, if any, and the
  manager afterwards.
\<close>

definition RemoveLogger :: "string \<Rightarrow> nat \<Rightarrow> LogManager \<Rightarrow> exn option \<times> LogManager" where
  "RemoveLogger nm tid m =
     (if m_state m \<noteq> Running \<or> AtomicString_Compare (m_defaultLoggerName m) nm then (None, m)
      else
        case m_loggerMap m of
          None \<Rightarrow> (Some NullDereference, m)
        | Some lm \<Rightarrow>
            (case LoggerMap_Remove nm tid lm (m_hazardDomain m) of
               (e, removed, lm1, d1) \<Rightarrow> (e, m\<lparr>m_loggerMap := Some lm1, m_hazardDomain := d1\<rparr>)))"

subsection \<open>Core/LoggerThreadPool.cpp: EnqueueMessage\<close>

text \<open>
  \<open>EnqueueMessage\<close>, called on the pool \<open>tp\<close>; the message is read through its pointer
  in the message pool of the manager.
\<close>

definition release_message :: "msg_ptr \<Rightarrow> LogManager \<Rightarrow> exn + LogManager" where
  "release_message a m =
     (case on_message_pool (\<lambda>p. ((), Release (Some a) p)) m of
        Inl e \<Rightarrow> Inl e
      | Inr (u, m1) \<Rightarrow> Inr m1)"

definition LoggerThreadPool_EnqueueMessage ::
  "msg_ptr option \<Rightarrow> nat \<Rightarrow> LoggerThreadPool \<Rightarrow> LogManager \<Rightarrow> exn + (LoggerThreadPool \<times> LogManager)" where
  "LoggerThreadPool_EnqueueMessage msg prio tp m =
     (case msg of
        None \<Rightarrow> Inr (tp, m)
      | Some a \<Rightarrow>
          if \<not> m_running tp \<or> m_flushing tp then map_sum id (Pair tp) (release_message a m)
          else
            (case m_messagePool m of
               None \<Rightarrow> Inl NullDereference
             | Some p \<Rightarrow>
                 if \<not> IsActive (msg_at p a) then map_sum id (Pair tp) (release_message a m)
                 else
                   let m1 = m\<lparr>m_messagePool := Some (map_msg AddRef a p)\<rparr>;
                       (queueIndex, tp1) = SelectQueue tp
                   in if queueIndex < length (m_queues tp1) then
                        let queueData = m_queues tp1 ! queueIndex;
                            queueData1 = queueData
                              \<lparr>messageQueue := pq_push \<lparr>item_message = Some a, priority = prio\<rparr>
                                                  (messageQueue queueData),
                               pendingMessages := size_t_add (pendingMessages queueData) 1\<rparr>
                        in Inr (tp1\<lparr>m_queues := (m_queues tp1)[queueIndex := queueData1]\<rparr>, m1)
                      else Inl NullDereference))"

subsection \<open>Logger.cpp\<close>

text \<open>
  The assignments \<open>CreateMessage\<close> and \<open>CreateStructuredMessage\<close> make to the message
  they acquired; \<open>self\<close> is the address of the logger.
\<close>

definition fill_message :: "int \<Rightarrow> string \<Rightarrow> Level \<Rightarrow> source_location \<Rightarrow> string \<Rightarrow> nat \<Rightarrow> Message \<Rightarrow> Message" where
  "fill_message now nm lvl loc txt self m =
     (let st = StringStorage_assign (messageStorage m) (Create txt)
      in m\<lparr>timestamp := now, name := nm, level := lvl, sourceLocation := loc,
            messageStorage := st, message := View st, logger := Some self\<rparr>)"

definition fill_structured_message ::
  "int \<Rightarrow> string \<Rightarrow> Level \<Rightarrow> source_location \<Rightarrow> string \<Rightarrow> nat \<Rightarrow> StructuredData \<Rightarrow> Message \<Rightarrow> Message" where
  "fill_structured_message now nm lvl loc txt self data m =
     (fill_message now nm lvl loc txt self m)\<lparr>structuredData := data\<rparr>"

text \<open>
  The methods of a logger take the logger \<open>lg\<close> and return it as they leave it; \<open>self\<close>
  is its address and \<open>now\<close> the reading of the system clock. \<open>CreateMessage\<close> and
  \<open>CreateStructuredMessage\<close> return the pointer to the message, \<open>None\<close> for null.
\<close>

definition CreateMessage ::
  "int \<Rightarrow> nat \<Rightarrow> Logger \<Rightarrow> string \<Rightarrow> Level \<Rightarrow> source_location \<Rightarrow> LogManager
     \<Rightarrow> exn + (msg_ptr option \<times> Logger \<times> LogManager)" where
  "CreateMessage now self lg txt lvl loc m =
     (case on_message_pool Acquire m of
        Inl e \<Rightarrow> Inl e
      | Inr (None, m1) \<Rightarrow> Inr (None, lg\<lparr>m_droppedMessages := m_droppedMessages lg + 1\<rparr>, m1)
      | Inr (Some a, m1) \<Rightarrow>
          Inr (Some a, lg,
               m1\<lparr>m_messagePool :=
                    map_option (map_msg (fill_message now (m_name lg) lvl loc txt self) a) (m_messagePool m1)\<rparr>))"


definition EnqueueMessage ::
  "nat \<Rightarrow> Logger \<Rightarrow> msg_ptr option \<Rightarrow> LogManager \<Rightarrow> exn + (Logger \<times> LogManager)" where
  "EnqueueMessage hw lg msg m =
     (case msg of
        None \<Rightarrow> Inr (lg, m)
      | Some a \<Rightarrow>
          (case m_messagePool m of
             None \<Rightarrow> Inl NullDereference
           | Some p \<Rightarrow>
               let prio = level_rank (level (msg_at p a));
                   m1 = EnsureThreadPoolInitialized hw m
               in case m_threadPool m1 of
                    None \<Rightarrow> Inl NullDereference
                  | Some tp \<Rightarrow>
                      (case LoggerThreadPool_EnqueueMessage msg prio tp m1 of
                         Inl e \<Rightarrow> Inl e
                       | Inr (tp1, m2) \<Rightarrow>
                           Inr (lg\<lparr>m_totalProcessed := m_totalProcessed lg + 1\<rparr>,
                                m2\<lparr>m_threadPool := Some tp1\<rparr>))))"

text \<open>The two overloads of \<open>Log\<close>: the value returned, the logger and the manager.\<close>

definition Log ::
  "nat \<Rightarrow> int \<Rightarrow> nat \<Rightarrow> Logger \<Rightarrow> string \<Rightarrow> Level \<Rightarrow> source_location \<Rightarrow> LogManager
     \<Rightarrow> exn + (bool \<times> Logger \<times> LogManager)" where
  "Log hw now self lg msg lvl loc m =
     (if msg = [] \<or> level_less lvl (m_level lg) \<or> level_ge lvl Off then Inr (False, lg, m)
      else
        case CreateMessage now self lg msg lvl loc m of
          Inl e \<Rightarrow> Inl e
        | Inr (None, lg1, m1) \<Rightarrow> Inr (False, lg1, m1)
        | Inr (Some logMessage, lg1, m1) \<Rightarrow>
            (case EnqueueMessage hw lg1 (Some logMessage) m1 of
               Inl e \<Rightarrow> Inl e
             | Inr (lg2, m2) \<Rightarrow> Inr (True, lg2, m2)))"


section \<open>Invariants and reference states\<close>

subsection \<open>The message pool\<close>

text \<open>
  A slot whose flag is clear holds a message with no name, no text, no structured data,
  level \<open>Info\<close> and no logger. Every chunk has as many messages and flags as its
  size says, and at least one.
\<close>

definition clean_msg :: "Message \<Rightarrow> bool" where
  "clean_msg m = (name m = [] \<and> message m = empty_view \<and> structuredData m = Map.empty
                  \<and> level m = Info \<and> logger m = None)"

definition slot_ok :: "Message \<Rightarrow> bool \<Rightarrow> bool" where
  "slot_ok m u = (u \<or> clean_msg m)"

definition wf_chunk :: "Chunk \<Rightarrow> bool" where
  "wf_chunk c = (length (objects c) = chunk_size c \<and> 0 < chunk_size c
                 \<and> list_all2 slot_ok (objects c) (used c))"

definition wf_cache :: "ThreadLocalCache \<Rightarrow> bool" where
  "wf_cache t = (length (messages t) = CACHE_SIZE \<and> list_all2 slot_ok (messages t) (cache_used t))"

definition pool_inv :: "MessagePool \<Rightarrow> bool" where
  "pool_inv p = (wf_cache (s_localCache p) \<and> m_chunks p \<noteq> [] \<and> list_all wf_chunk (m_chunks p))"

definition no_free_slot :: "MessagePool \<Rightarrow> bool" where
  "no_free_slot p = (list_all id (take CACHE_SIZE (cache_used (s_localCache p)))
                     \<and> list_all (\<lambda>c. list_all id (take (chunk_size c) (used c))) (m_chunks p))"

definition acquired_clean :: "Message \<Rightarrow> bool" where
  "acquired_clean m = (clean_msg m \<and> state m = Active \<and> refCount m = 1)"

definition acquired :: "MessagePool \<Rightarrow> msg_ptr \<Rightarrow> bool" where
  "acquired p a = (pool_inv p \<and> valid_ptr p a \<and> used_at p a \<and> acquired_clean (msg_at p a))"

text \<open>A pool as constructed, with every flag of the cache and of the first chunk set.\<close>

definition exhausted_pool :: MessagePool where
  "exhausted_pool =
     \<lparr>s_localCache = \<lparr>messages = replicate CACHE_SIZE Message_ctor,
                       cache_used = replicate CACHE_SIZE True,
                       usedCount = CACHE_SIZE\<rparr>,
      m_chunks = [\<lparr>objects = replicate INITIAL_CAPACITY Message_ctor,
                   used = replicate INITIAL_CAPACITY True,
                   chunk_size = INITIAL_CAPACITY\<rparr>],
      m_size = INITIAL_CAPACITY, m_capacity = INITIAL_CAPACITY,
      m_peakUsage = INITIAL_CAPACITY, m_nextChunkIndex = INITIAL_CAPACITY\<rparr>"

subsection \<open>Hazard pointers and copy-on-write lists\<close>

text \<open>Whether some non-null hazard slot of the domain holds the address \<open>p\<close>.\<close>

definition hazard_held :: "'d HazardPointerDomain \<Rightarrow> nat \<Rightarrow> bool" where
  "hazard_held d p =
     list_ex (\<lambda>r. hp_pointer r \<noteq> 0 \<and> hp_pointer r = p) (take MAX_HAZARD_POINTERS (m_hazardPointers d))"

text \<open>
  A domain with hazard pointers 7 and 9 announced and 10, 9, 8, 7 retired, and the
  lists built by adding 5, 7, 5 and so on to an empty list.
\<close>

definition cleanup_example :: "unit HazardPointerDomain" where
  "cleanup_example =
     \<lparr>m_hazardPointers = [\<lparr>threadID = 1, hp_pointer = 7\<rparr>, \<lparr>threadID = 2, hp_pointer = 0\<rparr>,
                          \<lparr>threadID = 3, hp_pointer = 9\<rparr>],
      m_retiredList = [\<lparr>pointer = 10, deleter = (), retireEpoch = 3\<rparr>,
                       \<lparr>pointer = 9, deleter = (), retireEpoch = 2\<rparr>,
                       \<lparr>pointer = 8, deleter = (), retireEpoch = 1\<rparr>,
                       \<lparr>pointer = 7, deleter = (), retireEpoch = 0\<rparr>],
      m_retireEpoch = 4,
      m_retiredCount = 4\<rparr>"

text \<open>
  The head of a list is null or a live node; it and every retired node were allocated
  before \<open>next_node\<close>, and no retired node is the head or null.
\<close>

definition rcu_inv :: "'a RCUList \<Rightarrow> bool" where
  "rcu_inv l =
     ((m_head l = 0 \<or> m_head l \<in> dom (node_heap l))
      \<and> m_head l < next_node l
      \<and> (\<forall>n \<in> set (m_retiredList (domain l)). pointer n < next_node l \<and> pointer n \<noteq> m_head l \<and> 0 < pointer n))"

subsection \<open>The queue of a worker\<close>

text \<open>
  The first \<open>len\<close> items form a binary max-heap by priority: no item has a higher
  priority than its parent, the item at index \<open>(i - 1) div 2\<close>.
\<close>

definition heap_upto :: "nat \<Rightarrow> QueueItem list \<Rightarrow> bool" where
  "heap_upto len xs = list_all (\<lambda>i. priority (xs ! i) \<le> priority (xs ! ((i - 1) div 2))) [1..<len]"

definition is_heap :: "QueueItem list \<Rightarrow> bool" where
  "is_heap xs = heap_upto (length xs) xs"

text \<open>The items a sequence of steps pushes, in the order of the pushes.\<close>

fun pushed_items :: "worker_step list \<Rightarrow> QueueItem list" where
  "pushed_items [] = []"
| "pushed_items (Push x # steps) = x # pushed_items steps"
| "pushed_items (Take # steps) = pushed_items steps"

subsection \<open>The logger and the manager\<close>

text \<open>
  The manager as \<open>Initialize\<close> leaves it where \<^verbatim>\<open>hardware_concurrency()\<close> is 8: state
  \<open>Running\<close>, the message pool and a thread pool of four workers in place, and in the
  registry the default logger \<open>main\<close>, with the console sink (at address 1) as its only
  sink, in an entry at address 2.
\<close>

definition main_logger :: Logger where
  "main_logger = (Logger_ctor ''main'' Info)\<lparr>m_sinkList := Add 1 RCUList_ctor\<rparr>"

definition running_manager :: LogManager where
  "running_manager =
     LogManager_ctor
       \<lparr>m_state := Running,
        m_loggerMap := Some (Insert 2 ''main'' main_logger LoggerMap_ctor),
        m_threadPool := Some (LoggerThreadPool_ctor 4),
        m_messagePool := Some MessagePool_ctor\<rparr>"


text \<open>The entries of the registry under a name, bucket by bucket.\<close>

definition entries_named :: "string \<Rightarrow> LogManager \<Rightarrow> LoggerEntry list list" where
  "entries_named nm m =
     (case m_loggerMap m of
        None \<Rightarrow> []
      | Some lm \<Rightarrow> map (filter (\<lambda>e. entry_name e = nm)) (m_buckets lm))"

text \<open>\<open>running_manager\<close> with a second logger, \<open>net\<close>, registered in an entry at address 3.\<close>

definition two_loggers :: LogManager where
  "two_loggers =
     running_manager
       \<lparr>m_loggerMap := Some (Insert 3 ''net'' (Logger_ctor ''net'' Info)
                               (Insert 2 ''main'' main_logger LoggerMap_ctor))\<rparr>"

section \<open>Theorems\<close>

subsection \<open>String storage: inline below 64 bytes, heap otherwise\<close>

lemma Create_inline:
  assumes "length str < 64"
  shows "IsInline (Create str)"
    and "m_heapBuffer (Create str) = None"
    and "view_bytes (Create str) (View (Create str)) = str"
    and "length (m_inlineBuffer (Create str)) = 64"
  using assms
  by (simp_all add: Create_def Store_def StringStorage_ctor_def IsInline_def View_def
      view_bytes_def memcpy_bytes_def memset_bytes_def INLINE_CAPACITY_def Let_def)

lemma Create_heap:
  assumes "\<not> length str < 64"
  shows "\<not> IsInline (Create str)"
    and "m_heapBuffer (Create str) = Some str"
    and "sv_data (View (Create str)) = HeapPtr 0"
    and "view_bytes (Create str) (View (Create str)) = str"
    and "m_heapBuffer (Create str) = Some (memcpy_bytes (new_char_array (length str)) str (length str))"
  using assms
  by (simp_all add: Create_def Store_def StringStorage_ctor_def IsInline_def View_def
      view_bytes_def memcpy_bytes_def new_char_array_def INLINE_CAPACITY_def Let_def)

lemma length_memcpy_bytes: "length (memcpy_bytes dst src n) = length dst"
  by (simp add: memcpy_bytes_def)

text \<open>
  C8. For every input string, \<open>Create\<close> stores the bytes inline, with the view pointing
  into the object's own inline buffer and no heap block allocated, exactly when the
  length is less than 64; otherwise the block \<^verbatim>\<open>new char[size]\<close> returns, into which the
  bytes are copied and which the object owns afterwards, has exactly the input's length
  in bytes, and the view points at its start. In both cases the view has the input's
  length and the bytes read through it are the input. (A copy never changes the size
  of the block it writes to, so the size of the block owned is the size allocated.)
\<close>

theorem StringStorage_Create_inline_iff_short:
  "(IsInline (Create str) \<longleftrightarrow> length str < 64)
   \<and> (if length str < 64
      then sv_data (View (Create str)) = InlinePtr 0 \<and> m_heapBuffer (Create str) = None
      else sv_data (View (Create str)) = HeapPtr 0
           \<and> m_heapBuffer (Create str) = Some (memcpy_bytes (new_char_array (length str)) str (length str))
           \<and> length (new_char_array (length str)) = length str
           \<and> (\<exists>h. m_heapBuffer (Create str) = Some h \<and> length h = length str))
   \<and> sv_size (View (Create str)) = length str
   \<and> view_bytes (Create str) (View (Create str)) = str"
proof (cases "length str < 64")
  case True
  have "sv_data (View (Create str)) = InlinePtr 0" "sv_size (View (Create str)) = length str"
    using True by (simp_all add: Create_def Store_def View_def INLINE_CAPACITY_def Let_def)
  with True Create_inline [OF True] show ?thesis by simp
next
  case False
  have "sv_size (View (Create str)) = length str"
    using False by (simp add: Create_def Store_def View_def INLINE_CAPACITY_def Let_def)
  moreover have "length (new_char_array (length str)) = length str"
    by (simp add: new_char_array_def)
  moreover have "m_heapBuffer (Create str) = Some str" using Create_heap(2) [OF False] .
  ultimately show ?thesis using False Create_heap(1,3,4,5) [OF False] by simp
qed

theorem StringStorage_Create_witness:
  "IsInline (Create ''disk full'')
   \<and> sv_data (View (Create ''disk full'')) = InlinePtr 0
   \<and> m_heapBuffer (Create ''disk full'') = None
   \<and> view_bytes (Create ''disk full'') (View (Create ''disk full'')) = ''disk full''
   \<and> \<not> IsInline (Create (replicate 64 CHR ''x''))
   \<and> sv_data (View (Create (replicate 64 CHR ''x''))) = HeapPtr 0
   \<and> (\<exists>h. m_heapBuffer (Create (replicate 64 CHR ''x'')) = Some h \<and> length h = 64)
   \<and> view_bytes (Create (replicate 64 CHR ''x'')) (View (Create (replicate 64 CHR ''x'')))
       = replicate 64 CHR ''x''"
  using StringStorage_Create_inline_iff_short [of "''disk full''"]
    StringStorage_Create_inline_iff_short [of "replicate 64 CHR ''x''"]
  by (simp add: length_memcpy_bytes)

subsection \<open>The message pool: acquisition and release\<close>

lemma first_unused_Some: "first_unused xs = Some i \<Longrightarrow> i < length xs \<and> \<not> xs ! i"
  by (induction xs arbitrary: i) (auto split: if_splits)

lemma first_unused_take_Some:
  "first_unused (take n xs) = Some i \<Longrightarrow> i < n \<and> i < length xs \<and> \<not> xs ! i"
  using first_unused_Some [of "take n xs" i] by auto

lemma first_unused_None: "first_unused xs = None \<longleftrightarrow> list_all id xs"
  by (induction xs) auto

lemma pool_inv_ctor: "pool_inv MessagePool_ctor"
  by (simp add: pool_inv_def MessagePool_ctor_def InitializeChunk_def new_chunk_def wf_chunk_def
      wf_cache_def ThreadLocalCache_ctor_def INITIAL_CAPACITY_def CACHE_SIZE_def
      list_all2_conv_all_nth slot_ok_def clean_msg_def Message_ctor_def)

lemma wf_cacheD:
  "wf_cache t \<Longrightarrow> length (messages t) = CACHE_SIZE \<and> length (cache_used t) = CACHE_SIZE"
  by (auto simp: wf_cache_def dest: list_all2_lengthD)

lemma wf_chunkD:
  "wf_chunk c \<Longrightarrow> length (objects c) = chunk_size c \<and> length (used c) = chunk_size c \<and> 0 < chunk_size c"
  by (auto simp: wf_chunk_def dest: list_all2_lengthD)

lemma pool_inv_chunk: "pool_inv p \<Longrightarrow> c < length (m_chunks p) \<Longrightarrow> wf_chunk (m_chunks p ! c)"
  by (simp add: pool_inv_def list_all_length)

lemma clean_free_slot:
  "pool_inv p \<Longrightarrow> valid_ptr p a \<Longrightarrow> \<not> used_at p a \<Longrightarrow> clean_msg (msg_at p a)"
proof (cases a)
  case (LocalSlot i)
  assume "pool_inv p" "valid_ptr p a" "\<not> used_at p a"
  then show ?thesis using LocalSlot
    by (auto simp: pool_inv_def wf_cache_def list_all2_conv_all_nth slot_ok_def)
next
  case (ChunkSlot c i)
  assume a: "pool_inv p" "valid_ptr p a" "\<not> used_at p a"
  then have "wf_chunk (m_chunks p ! c)" using ChunkSlot by (simp add: pool_inv_chunk)
  then show ?thesis using a ChunkSlot
    by (auto simp: wf_chunk_def list_all2_conv_all_nth slot_ok_def)
qed

lemma nth_update_total: "xs[i := y] ! j = (if i = j \<and> i < length xs then y else xs ! j)"
  by (cases "i < length xs") (auto simp: nth_list_update list_update_beyond)

lemma list_all_update: "list_all P xs \<Longrightarrow> P y \<Longrightarrow> list_all P (xs[i := y])"
  by (auto simp: list_all_length nth_update_total)

lemma slot_ok_update_msg:
  "list_all2 slot_ok ms us \<Longrightarrow> (i < length ms \<Longrightarrow> slot_ok m' (us ! i)) \<Longrightarrow> list_all2 slot_ok (ms[i := m']) us"
  by (auto simp: list_all2_conv_all_nth nth_update_total)

lemma slot_ok_update_used:
  "list_all2 slot_ok ms us \<Longrightarrow> (i < length ms \<Longrightarrow> slot_ok (ms ! i) b) \<Longrightarrow> list_all2 slot_ok ms (us[i := b])"
  by (auto simp: list_all2_conv_all_nth nth_update_total)

lemma valid_ptr_chunks_cong: "m_chunks p' = m_chunks p \<Longrightarrow> valid_ptr p' a = valid_ptr p a"
  by (cases a) simp_all

lemma map_msg_inv:
  assumes "pool_inv p" "valid_ptr p a" "slot_ok (f (msg_at p a)) (used_at p a)"
  shows "pool_inv (map_msg f a p)"
proof (cases a)
  case (LocalSlot i)
  with assms show ?thesis
    by (auto simp: pool_inv_def wf_cache_def intro!: slot_ok_update_msg)
next
  case (ChunkSlot c i)
  with assms have wf: "wf_chunk (m_chunks p ! c)" by (simp add: pool_inv_chunk)
  have "wf_chunk ((m_chunks p ! c)\<lparr>objects := (objects (m_chunks p ! c))[i := f (objects (m_chunks p ! c) ! i)]\<rparr>)"
    using wf assms ChunkSlot by (auto simp: wf_chunk_def intro!: slot_ok_update_msg)
  with assms ChunkSlot show ?thesis
    by (auto simp: pool_inv_def intro!: list_all_update)
qed

lemma msg_at_map_msg_same:
  assumes "pool_inv p" "valid_ptr p a"
  shows "msg_at (map_msg f a p) a = f (msg_at p a)"
proof (cases a)
  case (LocalSlot i)
  with assms show ?thesis by (auto simp: pool_inv_def dest!: wf_cacheD)
next
  case (ChunkSlot c i)
  with assms have "wf_chunk (m_chunks p ! c)" by (simp add: pool_inv_chunk)
  with assms ChunkSlot show ?thesis by (auto dest!: wf_chunkD)
qed

lemma used_at_map_msg: "used_at (map_msg f a p) b = used_at p b"
  by (cases a; cases b) (auto simp: nth_update_total)

lemma valid_ptr_map_msg: "valid_ptr (map_msg f a p) b = valid_ptr p b"
  by (cases a; cases b) (auto simp: nth_update_total)

lemma length_chunks_map_msg: "length (m_chunks (map_msg f a p)) = length (m_chunks p)"
  by (cases a) auto

lemma set_cache_used_inv:
  assumes "pool_inv p" "i < CACHE_SIZE" "slot_ok (msg_at p (LocalSlot i)) b"
  shows "pool_inv (set_cache_used i b p)"
  using assms by (auto simp: pool_inv_def wf_cache_def set_cache_used_def intro!: slot_ok_update_used)

lemma set_chunk_used_inv:
  assumes "pool_inv p" "valid_ptr p (ChunkSlot c i)" "slot_ok (msg_at p (ChunkSlot c i)) b"
  shows "pool_inv (set_chunk_used c i b p)"
proof -
  from assms have wf: "wf_chunk (m_chunks p ! c)" by (simp add: pool_inv_chunk)
  have "wf_chunk ((m_chunks p ! c)\<lparr>used := (used (m_chunks p ! c))[i := b]\<rparr>)"
    using wf assms by (auto simp: wf_chunk_def intro!: slot_ok_update_used)
  with assms show ?thesis
    by (auto simp: pool_inv_def set_chunk_used_def intro!: list_all_update)
qed

lemma pool_inv_counters:
  "pool_inv (p\<lparr>m_size := n\<rparr>) = pool_inv p"
  "pool_inv (p\<lparr>m_capacity := n\<rparr>) = pool_inv p"
  "pool_inv (p\<lparr>m_peakUsage := n\<rparr>) = pool_inv p"
  "pool_inv (p\<lparr>m_nextChunkIndex := n\<rparr>) = pool_inv p"
  by (simp_all add: pool_inv_def)

lemma pool_inv_update_peak: "pool_inv (update_peak p) = pool_inv p"
  by (simp add: update_peak_def pool_inv_def)

lemma pool_inv_usedCount:
  "pool_inv (p\<lparr>s_localCache := (s_localCache p)\<lparr>usedCount := n\<rparr>\<rparr>) = pool_inv p"
  by (simp add: pool_inv_def wf_cache_def)

lemma tl_acquire_None:
  "AcquireFromThreadLocalCache p = (None, p1) \<Longrightarrow>
     p1 = p \<and> list_all id (take CACHE_SIZE (cache_used (s_localCache p)))"
  by (auto simp: AcquireFromThreadLocalCache_def first_unused_None split: option.splits)

lemma tl_acquire_Some:
  assumes "pool_inv p" "AcquireFromThreadLocalCache p = (Some a, p1)"
  shows "valid_ptr p a \<and> \<not> used_at p a \<and> pool_inv p1 \<and> valid_ptr p1 a \<and> used_at p1 a
         \<and> msg_at p1 a = msg_at p a \<and> m_chunks p1 = m_chunks p"
proof -
  from assms(2) obtain i where
    i: "first_unused (take CACHE_SIZE (cache_used (s_localCache p))) = Some i" "a = LocalSlot i"
    and p1: "p1 = (set_cache_used i True p)
             \<lparr>s_localCache := (s_localCache (set_cache_used i True p))
                \<lparr>usedCount := size_t_add (usedCount (s_localCache p)) 1\<rparr>\<rparr>"
    by (auto simp: AcquireFromThreadLocalCache_def split: option.splits)
  from assms(1) have len: "length (cache_used (s_localCache p)) = CACHE_SIZE"
    by (auto simp: pool_inv_def dest: wf_cacheD)
  from first_unused_Some [OF i(1)] len have lt: "i < CACHE_SIZE" and free: "\<not> cache_used (s_localCache p) ! i"
    by auto
  have inv: "pool_inv (set_cache_used i True p)"
    using assms(1) lt by (rule set_cache_used_inv) (simp add: slot_ok_def)
  have "pool_inv p1" unfolding p1 using inv by (simp only: pool_inv_usedCount)
  moreover have "used_at p1 a" using lt len by (simp add: p1 i(2) set_cache_used_def)
  moreover have "msg_at p1 a = msg_at p a" by (simp add: p1 i(2) set_cache_used_def)
  moreover have "m_chunks p1 = m_chunks p" by (simp add: p1 set_cache_used_def)
  ultimately show ?thesis using lt free by (simp add: i(2))
qed

lemma activate_result:
  assumes "pool_inv p" "valid_ptr p a" "used_at p a" "clean_msg (msg_at p a)"
  shows "pool_inv (activate a p) \<and> valid_ptr (activate a p) a \<and> used_at (activate a p) a
         \<and> acquired_clean (msg_at (activate a p) a)"
proof -
  have "pool_inv (activate a p)"
    unfolding activate_def using assms(1,2) by (rule map_msg_inv) (simp add: slot_ok_def assms(3))
  moreover have "msg_at (activate a p) a = (msg_at p a)\<lparr>state := Active, refCount := 1\<rparr>"
    unfolding activate_def using assms(1,2) by (rule msg_at_map_msg_same)
  ultimately show ?thesis
    using assms by (simp add: activate_def used_at_map_msg valid_ptr_map_msg acquired_clean_def clean_msg_def)
qed

lemma length_chunks_activate: "length (m_chunks (activate a p)) = length (m_chunks p)"
  by (simp add: activate_def length_chunks_map_msg)

lemma scan_chunks_limited_Some:
  "scan_chunks_limited cs cis = Some (c, j) \<Longrightarrow>
     c \<in> set cis \<and> j < chunk_size (cs ! c) \<and> j < length (used (cs ! c)) \<and> \<not> used (cs ! c) ! j"
proof (induction cis)
  case Nil
  then show ?case by simp
next
  case (Cons ci cis)
  show ?case
  proof (cases "first_unused (take (min (chunk_size (cs ! ci)) 16) (used (cs ! ci)))")
    case None
    with Cons show ?thesis by simp
  next
    case (Some j')
    with Cons.prems have "c = ci" "j = j'" by simp_all
    with first_unused_take_Some [OF Some] show ?thesis by simp
  qed
qed

lemma scan_chunks_full_Some:
  "scan_chunks_full cs k = Some (c, i) \<Longrightarrow>
     k \<le> c \<and> c - k < length cs \<and> i < chunk_size (cs ! (c - k))
     \<and> i < length (used (cs ! (c - k))) \<and> \<not> used (cs ! (c - k)) ! i"
proof (induction cs arbitrary: k)
  case Nil
  then show ?case by simp
next
  case (Cons x cs)
  show ?case
  proof (cases "first_unused (take (chunk_size x) (used x))")
    case None
    with Cons.prems have "scan_chunks_full cs (Suc k) = Some (c, i)" by simp
    from Cons.IH [OF this] show ?thesis by (auto simp: Suc_diff_Suc less_eq_Suc_le)
  next
    case (Some i')
    with Cons.prems have "c = k" "i = i'" by simp_all
    with first_unused_take_Some [OF Some] show ?thesis by simp
  qed
qed

lemma scan_chunks_full_None:
  "scan_chunks_full cs k = None \<Longrightarrow> list_all (\<lambda>c. list_all id (take (chunk_size c) (used c))) cs"
  by (induction cs arbitrary: k) (auto simp: first_unused_None split: option.splits)

lemma free_slot_not_full:
  assumes "pool_inv p" "valid_ptr p a" "\<not> used_at p a"
  shows "\<not> no_free_slot p"
proof (cases a)
  case (LocalSlot i)
  with assms have "i < length (take CACHE_SIZE (cache_used (s_localCache p)))"
    "\<not> take CACHE_SIZE (cache_used (s_localCache p)) ! i"
    by (auto simp: pool_inv_def dest!: wf_cacheD)
  then show ?thesis unfolding no_free_slot_def list_all_length by fastforce
next
  case (ChunkSlot c i)
  with assms have wf: "wf_chunk (m_chunks p ! c)" and c: "c < length (m_chunks p)"
    by (simp_all add: pool_inv_chunk)
  let ?u = "take (chunk_size (m_chunks p ! c)) (used (m_chunks p ! c))"
  from wf assms ChunkSlot have "i < length ?u" "\<not> ?u ! i" by (auto dest!: wf_chunkD)
  then have "\<not> list_all id ?u" unfolding list_all_length by fastforce
  with c show ?thesis unfolding no_free_slot_def list_all_length by blast
qed

lemma claim_chunk_slot:
  assumes "pool_inv p" "valid_ptr p (ChunkSlot c j)" "\<not> used_at p (ChunkSlot c j)"
  shows "pool_inv (set_chunk_used c j True p)"
    and "valid_ptr (set_chunk_used c j True p) (ChunkSlot c j)"
    and "used_at (set_chunk_used c j True p) (ChunkSlot c j)"
    and "msg_at (set_chunk_used c j True p) (ChunkSlot c j) = msg_at p (ChunkSlot c j)"
    and "length (m_chunks (set_chunk_used c j True p)) = length (m_chunks p)"
proof -
  from assms have wf: "wf_chunk (m_chunks p ! c)" by (simp add: pool_inv_chunk)
  show "pool_inv (set_chunk_used c j True p)"
    using assms(1,2) by (rule set_chunk_used_inv) (simp add: slot_ok_def)
  show "valid_ptr (set_chunk_used c j True p) (ChunkSlot c j)"
    using assms(2) by (simp add: set_chunk_used_def)
  show "used_at (set_chunk_used c j True p) (ChunkSlot c j)"
    using assms(2) wf by (auto simp: set_chunk_used_def dest!: wf_chunkD)
  show "msg_at (set_chunk_used c j True p) (ChunkSlot c j) = msg_at p (ChunkSlot c j)"
    using assms(2) by (simp add: set_chunk_used_def)
  show "length (m_chunks (set_chunk_used c j True p)) = length (m_chunks p)"
    by (simp add: set_chunk_used_def)
qed

lemma acquire_chunk_path:
  assumes inv: "pool_inv p" and v: "valid_ptr p (ChunkSlot c j)" and f: "\<not> used_at p (ChunkSlot c j)"
    and q: "q = set_chunk_used c j True p"
    and r: "pool_inv r = pool_inv q" "m_chunks r = m_chunks q"
  shows "acquired (activate (ChunkSlot c j) r) (ChunkSlot c j)
         \<and> length (m_chunks (activate (ChunkSlot c j) r)) = length (m_chunks p)"
proof -
  note c = claim_chunk_slot [OF inv v f, folded q]
  have "clean_msg (msg_at p (ChunkSlot c j))" using inv v f by (rule clean_free_slot)
  then have "clean_msg (msg_at r (ChunkSlot c j))" using c(4) r(2) by simp
  moreover have "pool_inv r" using c(1) r(1) by simp
  moreover have "valid_ptr r (ChunkSlot c j)" using c(2) r(2) by simp
  moreover have "used_at r (ChunkSlot c j)" using c(3) r(2) by simp
  ultimately show ?thesis
    using activate_result [of r "ChunkSlot c j"] c(5) r(2)
    by (simp add: acquired_def length_chunks_activate)
qed

lemma medium_order_bound:
  "c \<in> set (map (\<lambda>i. (start + i) mod n) [0..<n]) \<Longrightarrow> c < n"
  by (cases "n = 0") auto

lemma new_chunk_wf: "0 < n \<Longrightarrow> wf_chunk (new_chunk n)"
  by (simp add: wf_chunk_def new_chunk_def list_all2_conv_all_nth slot_ok_def clean_msg_def Message_ctor_def)

lemma InitializeChunk_inv: "pool_inv p \<Longrightarrow> 0 < n \<Longrightarrow> pool_inv (InitializeChunk n p)"
  by (simp add: pool_inv_def InitializeChunk_def new_chunk_wf)

lemma acquire_growth_path:
  assumes inv: "pool_inv p" and n: "0 < n"
    and q: "q = (InitializeChunk n p)\<lparr>m_capacity := cap\<rparr>"
    and b: "b = length (m_chunks q) - 1"
    and r: "pool_inv r = pool_inv (set_chunk_used b 0 True q)" "m_chunks r = m_chunks (set_chunk_used b 0 True q)"
  shows "acquired (activate (ChunkSlot b 0) r) (ChunkSlot b 0)
         \<and> b = length (m_chunks p)
         \<and> butlast (m_chunks (activate (ChunkSlot b 0) r)) = m_chunks p
         \<and> chunk_size (last (m_chunks (activate (ChunkSlot b 0) r))) = n"
proof -
  have invq: "pool_inv q" using InitializeChunk_inv [OF inv n] by (simp add: q pool_inv_counters)
  have chq: "m_chunks q = m_chunks p @ [new_chunk n]" by (simp add: q InitializeChunk_def)
  have bl: "b = length (m_chunks p)" by (simp add: b chq)
  have v: "valid_ptr q (ChunkSlot b 0)" using n by (simp add: chq bl new_chunk_def)
  have f: "\<not> used_at q (ChunkSlot b 0)" using n by (simp add: chq bl new_chunk_def)
  have main: "acquired (activate (ChunkSlot b 0) r) (ChunkSlot b 0)"
    using acquire_chunk_path [OF invq v f refl r] by simp
  have "m_chunks (activate (ChunkSlot b 0) r)
        = (m_chunks p @ [new_chunk n])[b := ((m_chunks r) ! b)\<lparr>objects := (objects (m_chunks r ! b))[0 := (objects (m_chunks r ! b) ! 0)\<lparr>state := Active, refCount := 1\<rparr>]\<rparr>]"
    by (simp add: activate_def r(2) set_chunk_used_def chq bl)
  then have "butlast (m_chunks (activate (ChunkSlot b 0) r)) = m_chunks p"
    and "chunk_size (last (m_chunks (activate (ChunkSlot b 0) r))) = n"
    by (simp_all add: bl r(2) set_chunk_used_def chq new_chunk_def)
  with main bl show ?thesis by simp
qed

lemma Acquire_spec:
  assumes inv: "pool_inv p"
    and grow: "no_free_slot p \<Longrightarrow> 0 < size_t_mul (chunk_size (last (m_chunks p))) GROWTH_FACTOR"
  shows "\<exists>a p'. Acquire p = (Some a, p') \<and> acquired p' a \<and>
           (if no_free_slot p
            then a = ChunkSlot (length (m_chunks p)) 0 \<and> butlast (m_chunks p') = m_chunks p
                 \<and> chunk_size (last (m_chunks p')) = size_t_mul (chunk_size (last (m_chunks p))) GROWTH_FACTOR
            else valid_ptr p a \<and> \<not> used_at p a \<and> length (m_chunks p') = length (m_chunks p))"
proof (cases "AcquireFromThreadLocalCache p")
  case (Pair r p1)
  show ?thesis
  proof (cases r)
    case (Some a)
    note t = tl_acquire_Some [OF inv Pair [unfolded Some]]
    have "clean_msg (msg_at p a)" using inv t by (simp add: clean_free_slot)
    with t have "acquired (activate a p1) a"
      using activate_result [of p1 a] by (simp add: acquired_def)
    moreover have "\<not> no_free_slot p" using free_slot_not_full [OF inv, of a] t by simp
    moreover have "Acquire p = (Some a, activate a p1)" by (simp add: Acquire_def Pair Some)
    moreover have "length (m_chunks (activate a p1)) = length (m_chunks p)"
      using t by (simp add: length_chunks_activate)
    ultimately show ?thesis using t by simp
  next
    case None
    from tl_acquire_None [OF Pair [unfolded None]]
    have p1: "p1 = p" and tlfull: "list_all id (take CACHE_SIZE (cache_used (s_localCache p)))"
      by simp_all
    define p2 where "p2 = p\<lparr>m_nextChunkIndex := size_t_add (m_nextChunkIndex p) 1\<rparr>"
    have inv2: "pool_inv p2" using inv by (simp add: p2_def pool_inv_counters)
    have ch2: "m_chunks p2 = m_chunks p" by (simp add: p2_def)
    have tl2: "AcquireFromThreadLocalCache p2 = (None, p2)"
      using Pair by (auto simp: None p2_def AcquireFromThreadLocalCache_def split: option.splits)
    define order where "order = map (\<lambda>i. (m_nextChunkIndex p mod length (m_chunks p) + i) mod length (m_chunks p)) [0..<length (m_chunks p)]"
    show ?thesis
    proof (cases "scan_chunks_limited (m_chunks p) order")
      case (Some cj)
      obtain c j where cj: "cj = (c, j)" by (cases cj)
      note sc = scan_chunks_limited_Some [OF Some [unfolded cj]]
      from sc have "c < length (m_chunks p)"
        unfolding order_def by (blast dest: medium_order_bound)
      moreover from sc have j: "j < chunk_size (m_chunks p ! c)" "\<not> used (m_chunks p ! c) ! j"
        by simp_all
      ultimately have v: "valid_ptr p2 (ChunkSlot c j)" and f: "\<not> used_at p2 (ChunkSlot c j)"
        by (simp_all add: ch2)
      define q where "q = set_chunk_used c j True p2"
      define r where "r = update_peak (q\<lparr>m_size := size_t_add (m_size q) 1\<rparr>)"
      have "pool_inv r = pool_inv q" "m_chunks r = m_chunks q"
        by (simp_all add: r_def pool_inv_update_peak pool_inv_counters update_peak_def)
      from acquire_chunk_path [OF inv2 v f q_def this]
      have "acquired (activate (ChunkSlot c j) r) (ChunkSlot c j)"
        "length (m_chunks (activate (ChunkSlot c j) r)) = length (m_chunks p)"
        by (simp_all add: ch2)
      moreover have "Acquire p = (Some (ChunkSlot c j), activate (ChunkSlot c j) r)"
        using Some by (simp add: Acquire_def Pair None p1 Let_def order_def cj r_def q_def p2_def)
      moreover have "\<not> no_free_slot p" using free_slot_not_full [OF inv, of "ChunkSlot c j"] v f by (simp add: ch2)
      ultimately show ?thesis using v f by (simp add: ch2)
    next
      case None' : None
      show ?thesis
      proof (cases "scan_chunks_full (m_chunks p) 0")
        case (Some ci)
        obtain c i where ci: "ci = (c, i)" by (cases ci)
        from scan_chunks_full_Some [OF Some [unfolded ci]]
        have v: "valid_ptr p2 (ChunkSlot c i)" and f: "\<not> used_at p2 (ChunkSlot c i)"
          by (simp_all add: ch2)
        define q where "q = set_chunk_used c i True p2"
        define r where "r = q\<lparr>m_size := size_t_add (m_size q) 1\<rparr>"
        have "pool_inv r = pool_inv q" "m_chunks r = m_chunks q"
          by (simp_all add: r_def pool_inv_counters)
        from acquire_chunk_path [OF inv2 v f q_def this]
        have "acquired (activate (ChunkSlot c i) r) (ChunkSlot c i)"
          "length (m_chunks (activate (ChunkSlot c i) r)) = length (m_chunks p)"
          by (simp_all add: ch2)
        moreover have "Acquire p = (Some (ChunkSlot c i), activate (ChunkSlot c i) r)"
          using Some None' tl2
          by (simp add: Acquire_def Pair None p1 Let_def order_def [symmetric] ci r_def q_def p2_def [symmetric] ch2
              del: One_nat_def)
        moreover have "\<not> no_free_slot p" using free_slot_not_full [OF inv, of "ChunkSlot c i"] v f by (simp add: ch2)
        ultimately show ?thesis using v f by (simp add: ch2)
      next
        case None'' : None
        have full: "no_free_slot p"
          using tlfull scan_chunks_full_None [OF None''] by (simp add: no_free_slot_def)
        define n where "n = size_t_mul (chunk_size (last (m_chunks p))) GROWTH_FACTOR"
        have n: "0 < n" using grow [OF full] by (simp add: n_def)
        define q where "q = (InitializeChunk n p2)\<lparr>m_capacity := size_t_add (m_capacity (InitializeChunk n p2)) n\<rparr>"
        define b where "b = length (m_chunks q) - 1"
        define q' where "q' = set_chunk_used b 0 True q"
        define r where "r = update_peak (q'\<lparr>m_size := size_t_add (m_size q') 1\<rparr>)"
        have "pool_inv r = pool_inv (set_chunk_used b 0 True q)" "m_chunks r = m_chunks (set_chunk_used b 0 True q)"
          by (simp_all add: r_def q'_def pool_inv_update_peak pool_inv_counters update_peak_def)
        from acquire_growth_path [OF inv2 n q_def b_def this]
        have g: "acquired (activate (ChunkSlot b 0) r) (ChunkSlot b 0)"
          "b = length (m_chunks p)"
          "butlast (m_chunks (activate (ChunkSlot b 0) r)) = m_chunks p"
          "chunk_size (last (m_chunks (activate (ChunkSlot b 0) r))) = n"
          unfolding ch2 by blast+
        have "Acquire p = (Some (ChunkSlot b 0), activate (ChunkSlot b 0) r)"
          using None'' None' tl2
          by (simp add: Acquire_def Pair None p1 Let_def order_def [symmetric] r_def q'_def b_def
              q_def n_def p2_def [symmetric] ch2 del: One_nat_def)
        with g full show ?thesis by (simp add: n_def)
      qed
    qed
  qed
qed

lemma fill_keeps_state:
  "state (fill_structured_message now nm lvl loc txt self data m) = state m"
  "refCount (fill_structured_message now nm lvl loc txt self data m) = refCount m"
  "state (fill_message now nm lvl loc txt self m) = state m"
  "refCount (fill_message now nm lvl loc txt self m) = refCount m"
  by (simp_all add: fill_structured_message_def fill_message_def Let_def)

lemma ResetMessage_clean:
  "clean_msg (ResetMessage m)" "state (ResetMessage m) = Pooled" "refCount (ResetMessage m) = 0"
  by (simp_all add: ResetMessage_def clean_msg_def StructuredData_Clear_def)

lemma write_used_slot:
  assumes "pool_inv p" "valid_ptr p a" "used_at p a"
  shows "pool_inv (map_msg f a p)" "valid_ptr (map_msg f a p) a" "used_at (map_msg f a p) a"
    "msg_at (map_msg f a p) a = f (msg_at p a)"
    "length (m_chunks (map_msg f a p)) = length (m_chunks p)"
proof -
  show "pool_inv (map_msg f a p)"
    using assms(1,2) by (rule map_msg_inv) (simp add: slot_ok_def assms(3))
  show "msg_at (map_msg f a p) a = f (msg_at p a)"
    using assms(1,2) by (rule msg_at_map_msg_same)
qed (simp_all add: assms valid_ptr_map_msg used_at_map_msg length_chunks_map_msg)

lemma Release_finalizes:
  assumes inv: "pool_inv p" and v: "valid_ptr p a" and u: "used_at p a"
    and st: "state (msg_at p a) = Active" and rc: "refCount (msg_at p a) = 1"
  shows "pool_inv (Release (Some a) p) \<and> valid_ptr (Release (Some a) p) a
         \<and> \<not> used_at (Release (Some a) p) a
         \<and> state (msg_at (Release (Some a) p) a) = Pooled
         \<and> refCount (msg_at (Release (Some a) p) a) = 0"
proof -
  define p1 where "p1 = map_msg (\<lambda>m. m\<lparr>state := Releasing\<rparr>) a p"
  define p2 where "p2 = map_msg (\<lambda>m. m\<lparr>refCount := 0\<rparr>) a p1"
  define p3 where "p3 = map_msg ResetMessage a p2"
  note w1 = write_used_slot [OF inv v u, of "\<lambda>m. m\<lparr>state := Releasing\<rparr>", folded p1_def]
  note w2 = write_used_slot [OF w1(1,2,3), of "\<lambda>m. m\<lparr>refCount := 0\<rparr>", folded p2_def]
  note w3 = write_used_slot [OF w2(1,2,3), of ResetMessage, folded p3_def]
  have rc1: "refCount (msg_at p1 a) = 1" by (simp add: w1(4) rc)
  have st2: "state (msg_at p2 a) = Releasing" by (simp add: w2(4) w1(4))
  have rel: "Release (Some a) p = FinalizeRelease (Some a) p2"
    using st rc1 by (simp add: Release_def Let_def p2_def p1_def [symmetric])
  have m3: "clean_msg (msg_at p3 a)" "state (msg_at p3 a) = Pooled" "refCount (msg_at p3 a) = 0"
    by (simp_all add: w3(4) ResetMessage_clean)
  show ?thesis
  proof (cases a)
    case (LocalSlot i)
    with v have i: "i < CACHE_SIZE" by simp
    define p4 where "p4 = set_cache_used i False p3"
    have inv4: "pool_inv p4"
      unfolding p4_def using w3(1) i by (rule set_cache_used_inv) (use m3(1) in \<open>simp add: slot_ok_def LocalSlot\<close>)
    have fin: "FinalizeRelease (Some a) p2
               = p4\<lparr>s_localCache := (s_localCache p4)\<lparr>usedCount := size_t_sub (usedCount (s_localCache p4)) 1\<rparr>\<rparr>"
      using st2 i by (simp add: FinalizeRelease_def TryReleaseToThreadLocalCache_def LocalSlot Let_def
          p4_def p3_def [unfolded LocalSlot])
    have len: "length (cache_used (s_localCache p3)) = CACHE_SIZE"
      using w3(1) by (auto simp: pool_inv_def dest: wf_cacheD)
    show ?thesis
      unfolding rel fin using inv4 i m3 len
      by (simp add: pool_inv_def wf_cache_def LocalSlot p4_def set_cache_used_def)
  next
    case (ChunkSlot c i)
    with v have ci: "c < length (m_chunks p) \<and> i < chunk_size (m_chunks p ! c)" by simp
    have v2: "valid_ptr p2 (ChunkSlot c i)" using w2(2) ChunkSlot by simp
    define p4 where "p4 = set_chunk_used c i False p3"
    have inv4: "pool_inv p4"
      unfolding p4_def using w3(1) w3(2) [unfolded ChunkSlot]
      by (rule set_chunk_used_inv) (use m3(1) in \<open>simp add: slot_ok_def ChunkSlot\<close>)
    have was: "used (m_chunks p3 ! c) ! i" using w3(3) ChunkSlot by simp
    have fin: "FinalizeRelease (Some a) p2 = p4\<lparr>m_size := size_t_sub (m_size p4) 1\<rparr>"
      using st2 v2 was
      by (simp add: FinalizeRelease_def TryReleaseToThreadLocalCache_def ChunkSlot Let_def
          p4_def p3_def [unfolded ChunkSlot, symmetric] del: map_msg.simps)
    have wf: "wf_chunk (m_chunks p3 ! c)" using w3(1) w3(2) ChunkSlot by (simp add: pool_inv_chunk)
    have v3: "c < length (m_chunks p3)" "i < chunk_size (m_chunks p3 ! c)" using w3(2) ChunkSlot by simp_all
    show ?thesis
      unfolding rel fin using inv4 m3 v3 wf
      by (auto simp: pool_inv_counters ChunkSlot p4_def set_chunk_used_def dest!: wf_chunkD)
  qed
qed

lemma no_wrap_growth:
  "chunk_size (last (m_chunks p)) * GROWTH_FACTOR < 2 ^ 64 \<Longrightarrow> pool_inv p \<Longrightarrow>
     size_t_mul (chunk_size (last (m_chunks p))) GROWTH_FACTOR = chunk_size (last (m_chunks p)) * GROWTH_FACTOR
     \<and> 0 < chunk_size (last (m_chunks p)) * GROWTH_FACTOR"
proof -
  assume a: "chunk_size (last (m_chunks p)) * GROWTH_FACTOR < 2 ^ 64" and inv: "pool_inv p"
  from inv have "last (m_chunks p) \<in> set (m_chunks p)" by (simp add: pool_inv_def)
  with inv have "wf_chunk (last (m_chunks p))" by (auto simp: pool_inv_def list_all_iff)
  then have "0 < chunk_size (last (m_chunks p))" by (simp add: wf_chunk_def)
  with a show ?thesis by (simp add: size_t_mul_def size_t_wrap_def GROWTH_FACTOR_def)
qed

text \<open>
  C9. \<open>Acquire\<close> never reports failure. From every pool state that satisfies the pool
  invariant, and whose last chunk can be doubled without wrapping \<^verbatim>\<open>size_t\<close>, it
  returns a non-null pointer to a slot of the resulting pool whose message is in state
  \<open>Active\<close> with reference count 1. When no slot is free (neither in the calling thread's
  cache nor in any chunk), the pool grows by exactly one chunk, of the last chunk's size
  times \<open>GROWTH_FACTOR = 2\<close>, and the message is slot 0 of the new chunk; otherwise the
  number of chunks is unchanged and the slot returned was free before the call.
\<close>

theorem Acquire_never_fails:
  assumes "pool_inv p" and "chunk_size (last (m_chunks p)) * GROWTH_FACTOR < 2 ^ 64"
  shows "\<exists>a p'. Acquire p = (Some a, p') \<and> valid_ptr p' a
           \<and> state (msg_at p' a) = Active \<and> refCount (msg_at p' a) = 1
           \<and> (if no_free_slot p
              then a = ChunkSlot (length (m_chunks p)) 0
                   \<and> butlast (m_chunks p') = m_chunks p
                   \<and> chunk_size (last (m_chunks p')) = chunk_size (last (m_chunks p)) * GROWTH_FACTOR
              else valid_ptr p a \<and> \<not> used_at p a \<and> length (m_chunks p') = length (m_chunks p))"
proof -
  note g = no_wrap_growth [OF assms(2,1)]
  from Acquire_spec [OF assms(1)] g obtain a p' where
    "Acquire p = (Some a, p')" "acquired p' a"
    "if no_free_slot p
     then a = ChunkSlot (length (m_chunks p)) 0 \<and> butlast (m_chunks p') = m_chunks p
          \<and> chunk_size (last (m_chunks p')) = size_t_mul (chunk_size (last (m_chunks p))) GROWTH_FACTOR
     else valid_ptr p a \<and> \<not> used_at p a \<and> length (m_chunks p') = length (m_chunks p)"
    by auto
  with g show ?thesis by (auto simp: acquired_def acquired_clean_def)
qed

lemma pool_inv_exhausted: "pool_inv exhausted_pool"
  by (simp add: pool_inv_def exhausted_pool_def wf_chunk_def wf_cache_def INITIAL_CAPACITY_def
      CACHE_SIZE_def list_all2_conv_all_nth slot_ok_def)

lemma no_free_slot_exhausted: "no_free_slot exhausted_pool"
  by (simp add: no_free_slot_def exhausted_pool_def list_all_length)

theorem Acquire_never_fails_witness:
  "\<exists>p'. Acquire exhausted_pool = (Some (ChunkSlot 1 0), p')
        \<and> state (msg_at p' (ChunkSlot 1 0)) = Active \<and> refCount (msg_at p' (ChunkSlot 1 0)) = 1
        \<and> butlast (m_chunks p') = m_chunks exhausted_pool
        \<and> chunk_size (last (m_chunks p')) = 2048"
proof -
  have "chunk_size (last (m_chunks exhausted_pool)) * GROWTH_FACTOR < 2 ^ 64"
    by (simp add: exhausted_pool_def INITIAL_CAPACITY_def GROWTH_FACTOR_def)
  from Acquire_never_fails [OF pool_inv_exhausted this] no_free_slot_exhausted
  show ?thesis by (auto simp: exhausted_pool_def INITIAL_CAPACITY_def GROWTH_FACTOR_def)
qed

text \<open>
  C1. For every payload (time stamp, logger name, level, source location, message text,
  logger address, structured data): \<open>Acquire\<close>, then the writes of
  \<open>CreateStructuredMessage\<close> to the acquired message, then \<open>Release\<close> of that message,
  then \<open>Acquire\<close> again. The release returns the message to the pool (state \<open>Pooled\<close>,
  flag clear), and the second \<open>Acquire\<close> returns a reset message: its name and message
  views are empty, its structured data is empty, its level is \<open>Info\<close>, its logger
  pointer is null, its state is \<open>Active\<close> and its reference count is 1.
\<close>

theorem acquire_release_acquire_reset:
  assumes "pool_inv p" and "chunk_size (last (m_chunks p)) * GROWTH_FACTOR < 2 ^ 64"
  shows "\<exists>a p1 b p4.
           Acquire p = (Some a, p1)
           \<and> (let p2 = map_msg (fill_structured_message now nm lvl loc txt self data) a p1;
                  p3 = Release (Some a) p2
              in state (msg_at p3 a) = Pooled \<and> \<not> used_at p3 a
                 \<and> Acquire p3 = (Some b, p4) \<and> valid_ptr p4 b
                 \<and> name (msg_at p4 b) = [] \<and> message (msg_at p4 b) = empty_view
                 \<and> structuredData (msg_at p4 b) = Map.empty
                 \<and> level (msg_at p4 b) = Info \<and> logger (msg_at p4 b) = None
                 \<and> state (msg_at p4 b) = Active \<and> refCount (msg_at p4 b) = 1)"
proof -
  note g = no_wrap_growth [OF assms(2,1)]
  from Acquire_spec [OF assms(1)] g obtain a p1 where
    a: "Acquire p = (Some a, p1)" "acquired p1 a" by auto
  let ?f = "fill_structured_message now nm lvl loc txt self data"
  define p2 where "p2 = map_msg ?f a p1"
  define p3 where "p3 = Release (Some a) p2"
  from a(2) have inv1: "pool_inv p1" and v1: "valid_ptr p1 a" and u1: "used_at p1 a"
    and s1: "state (msg_at p1 a) = Active" "refCount (msg_at p1 a) = 1"
    by (simp_all add: acquired_def acquired_clean_def)
  note w = write_used_slot [OF inv1 v1 u1, of ?f, folded p2_def]
  have "state (msg_at p2 a) = Active" "refCount (msg_at p2 a) = 1"
    by (simp_all add: w(4) fill_keeps_state s1)
  from Release_finalizes [OF w(1,2,3) this, folded p3_def]
  have r: "pool_inv p3" "valid_ptr p3 a" "\<not> used_at p3 a" "state (msg_at p3 a) = Pooled"
    by simp_all
  have "\<not> no_free_slot p3" using r(1,2,3) by (rule free_slot_not_full)
  with Acquire_spec [OF r(1)] obtain b p4 where
    b: "Acquire p3 = (Some b, p4)" "acquired p4 b" by auto
  from b(2) have fin: "valid_ptr p4 b" "clean_msg (msg_at p4 b)"
    "state (msg_at p4 b) = Active" "refCount (msg_at p4 b) = 1"
    by (simp_all add: acquired_def acquired_clean_def)
  have "Acquire p = (Some a, p1)
        \<and> (let p2 = map_msg ?f a p1; p3 = Release (Some a) p2
           in state (msg_at p3 a) = Pooled \<and> \<not> used_at p3 a
              \<and> Acquire p3 = (Some b, p4) \<and> valid_ptr p4 b
              \<and> name (msg_at p4 b) = [] \<and> message (msg_at p4 b) = empty_view
              \<and> structuredData (msg_at p4 b) = Map.empty
              \<and> level (msg_at p4 b) = Info \<and> logger (msg_at p4 b) = None
              \<and> state (msg_at p4 b) = Active \<and> refCount (msg_at p4 b) = 1)"
    using a(1) b(1) r(3,4) fin
    by (simp add: Let_def p2_def [symmetric] p3_def [symmetric] clean_msg_def)
  then show ?thesis by blast
qed

theorem acquire_release_acquire_reset_witness:
  "\<exists>a p1 b p4.
     Acquire MessagePool_ctor = (Some a, p1)
     \<and> (let p2 = map_msg (fill_structured_message 1700000000 ''net'' Warn
                     \<lparr>sl_file = ''io.cpp'', sl_function = ''send'', sl_line = 42\<rparr>
                     ''connection reset'' 7 [''peer'' \<mapsto> FString ''10.0.0.1'']) a p1;
            p3 = Release (Some a) p2
        in state (msg_at p3 a) = Pooled \<and> \<not> used_at p3 a
           \<and> Acquire p3 = (Some b, p4) \<and> valid_ptr p4 b
           \<and> name (msg_at p4 b) = [] \<and> message (msg_at p4 b) = empty_view
           \<and> structuredData (msg_at p4 b) = Map.empty
           \<and> level (msg_at p4 b) = Info \<and> logger (msg_at p4 b) = None
           \<and> state (msg_at p4 b) = Active \<and> refCount (msg_at p4 b) = 1)"
proof -
  have "chunk_size (last (m_chunks MessagePool_ctor)) * GROWTH_FACTOR < 2 ^ 64"
    by (simp add: MessagePool_ctor_def InitializeChunk_def new_chunk_def INITIAL_CAPACITY_def GROWTH_FACTOR_def)
  from acquire_release_acquire_reset [OF pool_inv_ctor this] show ?thesis .
qed

subsection \<open>Hazard pointers: cleanup frees exactly the unprotected nodes; copy-on-write lists\<close>

lemma lower_bound_spec:
  assumes "sorted xs" "first + cnt \<le> length xs"
    and "\<forall>i<first. xs ! i < v"
    and "\<forall>i. first + cnt \<le> i \<and> i < length xs \<longrightarrow> v \<le> xs ! i"
  shows "lower_bound xs first cnt v \<le> length xs
         \<and> (\<forall>i<lower_bound xs first cnt v. xs ! i < v)
         \<and> (\<forall>i. lower_bound xs first cnt v \<le> i \<and> i < length xs \<longrightarrow> v \<le> xs ! i)"
  using assms
proof (induction xs first cnt v rule: lower_bound.induct)
  case (1 xs first cnt v)
  show ?case
  proof (cases "cnt = 0")
    case True
    with "1.prems" show ?thesis by (simp add: lower_bound.simps [of xs first cnt v])
  next
    case False
    define step where "step = cnt div 2"
    define it where "it = first + step"
    have it: "it < length xs" using False "1.prems"(2) by (simp add: it_def step_def; linarith)
    show ?thesis
    proof (cases "xs ! it < v")
      case True
      have eq: "lower_bound xs first cnt v = lower_bound xs (it + 1) (cnt - (step + 1)) v"
        using False True by (subst lower_bound.simps) (simp add: Let_def it_def step_def)
      have lo: "\<forall>i<it + 1. xs ! i < v"
      proof (intro allI impI)
        fix i assume "i < it + 1"
        then have "i \<le> it" by simp
        with \<open>sorted xs\<close> it have "xs ! i \<le> xs ! it" by (simp add: sorted_iff_nth_mono)
        with True show "xs ! i < v" by simp
      qed
      have b: "it + 1 + (cnt - (step + 1)) \<le> length xs"
        using "1.prems"(2) False by (simp add: it_def step_def; linarith)
      have hi: "\<forall>i. it + 1 + (cnt - (step + 1)) \<le> i \<and> i < length xs \<longrightarrow> v \<le> xs ! i"
      proof -
        have "it + 1 + (cnt - (step + 1)) = first + cnt" using False by (simp add: it_def step_def; linarith)
        with "1.prems"(4) show ?thesis by simp
      qed
      from "1.IH"(1) [OF False step_def it_def True "1.prems"(1) b lo hi]
      show ?thesis unfolding eq .
    next
      case nlt: False
      have eq: "lower_bound xs first cnt v = lower_bound xs first step v"
        using False nlt by (subst lower_bound.simps) (simp add: Let_def it_def step_def)
      have b: "first + step \<le> length xs" using it by (simp add: it_def)
      have hi: "\<forall>i. first + step \<le> i \<and> i < length xs \<longrightarrow> v \<le> xs ! i"
      proof (intro allI impI)
        fix i assume "first + step \<le> i \<and> i < length xs"
        with \<open>sorted xs\<close> have "xs ! it \<le> xs ! i" by (simp add: sorted_iff_nth_mono it_def)
        with nlt show "v \<le> xs ! i" by simp
      qed
      from "1.IH"(2) [OF False step_def it_def nlt "1.prems"(1) b "1.prems"(3) hi]
      show ?thesis unfolding eq .
    qed
  qed
qed

lemma binary_search_iff:
  assumes "sorted xs"
  shows "binary_search xs v \<longleftrightarrow> v \<in> set xs"
proof -
  define r where "r = lower_bound xs 0 (length xs) v"
  from lower_bound_spec [OF assms, of 0 "length xs" v]
  have r: "r \<le> length xs" "\<forall>i<r. xs ! i < v" "\<forall>i. r \<le> i \<and> i < length xs \<longrightarrow> v \<le> xs ! i"
    by (simp_all add: r_def)
  have bs: "binary_search xs v \<longleftrightarrow> (r \<noteq> length xs \<and> \<not> v < xs ! r)"
    by (simp add: binary_search_def r_def Let_def)
  show ?thesis
  proof
    assume "binary_search xs v"
    with bs r have "r < length xs" "xs ! r = v" by (auto simp: le_less dest: spec [of _ r])
    then show "v \<in> set xs" by (auto simp: in_set_conv_nth)
  next
    assume "v \<in> set xs"
    then obtain i where i: "i < length xs" "xs ! i = v" by (auto simp: in_set_conv_nth)
    with r(2) have "r \<le> i" by (metis less_irrefl not_le)
    with i r have "r < length xs" "v \<le> xs ! r" by auto
    moreover have "xs ! r \<le> xs ! i" using assms \<open>r \<le> i\<close> i(1) sorted_iff_nth_mono [of xs] by blast
    ultimately show "binary_search xs v" using bs i by simp
  qed
qed

lemma set_collect_hazards: "p \<in> set (collect_hazards d) \<longleftrightarrow> hazard_held d p"
  by (auto simp: collect_hazards_def hazard_held_def list_ex_iff)

lemma hazards_found: "binary_search (collect_hazards d) p \<longleftrightarrow> hazard_held d p"
  using binary_search_iff [of "collect_hazards d" p] set_collect_hazards [of p d]
  by (simp add: collect_hazards_def)

lemma split_retired_eq:
  "split_retired (collect_hazards d) nodes deferred toDelete =
     (rev (filter (\<lambda>n. hazard_held d (pointer n)) nodes) @ deferred,
      rev (filter (\<lambda>n. \<not> hazard_held d (pointer n)) nodes) @ toDelete)"
  by (induction nodes arbitrary: deferred toDelete) (simp_all add: hazards_found)

lemma collect_hazards_count: "collect_hazards (d\<lparr>m_retiredCount := n\<rparr>) = collect_hazards d"
  by (simp add: collect_hazards_def)

lemma hazard_held_cong:
  "m_hazardPointers d' = m_hazardPointers d \<Longrightarrow> hazard_held d' = hazard_held d"
  by (simp add: hazard_held_def fun_eq_iff)

lemma TryCleanup_eq:
  "snd (TryCleanup d) = rev (filter (\<lambda>n. \<not> hazard_held d (pointer n)) (m_retiredList d))"
  "m_retiredList (fst (TryCleanup d)) = rev (filter (\<lambda>n. hazard_held d (pointer n)) (m_retiredList d))"
  "m_hazardPointers (fst (TryCleanup d)) = m_hazardPointers d"
  by (simp_all add: TryCleanup_def Let_def collect_hazards_count split_retired_eq)

text \<open>
  C6. For every hazard-pointer domain state, \<open>TryCleanup\<close> calls the deleter of, and
  frees, exactly the retired nodes whose pointer is held by no non-null hazard slot, and
  puts back on the retired list exactly the retired nodes whose pointer is held by one
  (both in reverse of the order the retired list had); the hazard slots are untouched,
  and no freed node's pointer is held by a hazard slot.
\<close>

theorem TryCleanup_frees_exactly_unprotected:
  "snd (TryCleanup d) = rev (filter (\<lambda>n. \<not> hazard_held d (pointer n)) (m_retiredList d))
   \<and> m_retiredList (fst (TryCleanup d)) = rev (filter (\<lambda>n. hazard_held d (pointer n)) (m_retiredList d))
   \<and> m_hazardPointers (fst (TryCleanup d)) = m_hazardPointers d
   \<and> list_all (\<lambda>n. \<not> hazard_held d (pointer n)) (snd (TryCleanup d))"
  by (simp add: TryCleanup_eq list_all_iff)

theorem TryCleanup_witness:
  "snd (TryCleanup cleanup_example)
     = [\<lparr>pointer = 8, deleter = (), retireEpoch = 1\<rparr>, \<lparr>pointer = 10, deleter = (), retireEpoch = 3\<rparr>]
   \<and> m_retiredList (fst (TryCleanup cleanup_example))
     = [\<lparr>pointer = 7, deleter = (), retireEpoch = 0\<rparr>, \<lparr>pointer = 9, deleter = (), retireEpoch = 2\<rparr>]"
  using TryCleanup_frees_exactly_unprotected [of cleanup_example]
  by (simp add: cleanup_example_def hazard_held_def MAX_HAZARD_POINTERS_def)

lemma delete_nodes_apply:
  "delete_nodes dead h p = (if p \<in> pointer ` set dead then None else h p)"
  unfolding delete_nodes_def by (induction dead arbitrary: h) auto

lemma RetireNode_sets:
  "set (m_retiredList (fst (RetireNode ptr del d))) \<union> set (snd (RetireNode ptr del d))
     \<subseteq> insert \<lparr>pointer = ptr, deleter = del, retireEpoch = m_retireEpoch d\<rparr> (set (m_retiredList d))"
  by (auto simp: RetireNode_def Let_def TryCleanup_eq)

lemma RCU_RetireNode_props:
  assumes "\<forall>n \<in> set (m_retiredList (domain l)). pointer n < next_node l \<and> pointer n \<noteq> m_head l \<and> 0 < pointer n"
    and "old < next_node l" "old \<noteq> m_head l" "0 < old"
  shows "m_head (RCU_RetireNode old l) = m_head l"
    and "next_node (RCU_RetireNode old l) = next_node l"
    and "node_heap (RCU_RetireNode old l) (m_head l) = node_heap l (m_head l)"
    and "\<forall>n \<in> set (m_retiredList (domain (RCU_RetireNode old l))).
           pointer n < next_node l \<and> pointer n \<noteq> m_head l \<and> 0 < pointer n"
proof -
  obtain d dead where r: "RetireNode old () (domain l) = (d, dead)" by (cases "RetireNode old () (domain l)")
  have eq: "RCU_RetireNode old l = l\<lparr>domain := d, node_heap := delete_nodes dead (node_heap l)\<rparr>"
    by (simp add: RCU_RetireNode_def r)
  from RetireNode_sets [of old "()" "domain l"] r
  have sub: "set (m_retiredList d) \<union> set dead
             \<subseteq> insert \<lparr>pointer = old, deleter = (), retireEpoch = m_retireEpoch (domain l)\<rparr> (set (m_retiredList (domain l)))"
    by simp
  have all: "\<forall>n \<in> set (m_retiredList d) \<union> set dead. pointer n < next_node l \<and> pointer n \<noteq> m_head l \<and> 0 < pointer n"
    using sub assms by auto
  show "m_head (RCU_RetireNode old l) = m_head l" "next_node (RCU_RetireNode old l) = next_node l"
    by (simp_all add: eq)
  have "m_head l \<notin> pointer ` set dead" using all by auto
  then show "node_heap (RCU_RetireNode old l) (m_head l) = node_heap l (m_head l)"
    by (simp add: eq delete_nodes_apply)
  show "\<forall>n \<in> set (m_retiredList (domain (RCU_RetireNode old l))).
           pointer n < next_node l \<and> pointer n \<noteq> m_head l \<and> 0 < pointer n"
    using all by (simp add: eq)
qed

lemma publish_props:
  fixes xs :: "'a list" and l :: "'a RCUList"
  assumes inv: "rcu_inv l" and old: "m_head l \<noteq> 0"
  defines "l2 \<equiv> (snd (new_Node xs l))\<lparr>m_head := fst (new_Node xs l)\<rparr>"
  shows "Items (RCU_RetireNode (m_head l) l2) = xs"
    and "rcu_inv (RCU_RetireNode (m_head l) l2)"
    and "m_head (RCU_RetireNode (m_head l) l2) = next_node l"
proof -
  have h2: "m_head l2 = next_node l" "next_node l2 = Suc (next_node l)"
    "node_heap l2 = (node_heap l)(next_node l \<mapsto> xs)" "domain l2 = domain l"
    by (simp_all add: l2_def new_Node_def)
  from inv have lt: "m_head l < next_node l"
    and ret: "\<forall>n \<in> set (m_retiredList (domain l)). pointer n < next_node l \<and> pointer n \<noteq> m_head l \<and> 0 < pointer n"
    by (simp_all add: rcu_inv_def)
  have pre: "\<forall>n \<in> set (m_retiredList (domain l2)). pointer n < next_node l2 \<and> pointer n \<noteq> m_head l2 \<and> 0 < pointer n"
    using ret by (auto simp: h2)
  note p = RCU_RetireNode_props [OF pre, of "m_head l"]
  have c: "m_head l < next_node l2" "m_head l \<noteq> m_head l2" "0 < m_head l"
    using lt old by (simp_all add: h2)
  note q = p [OF c]
  show hd: "m_head (RCU_RetireNode (m_head l) l2) = next_node l" using q(1) by (simp add: h2)
  have heap: "node_heap (RCU_RetireNode (m_head l) l2) (next_node l) = Some xs"
    using q(3) by (simp add: h2)
  show "Items (RCU_RetireNode (m_head l) l2) = xs"
    using lt by (simp add: Items_def hd node_items_def heap)
  show "rcu_inv (RCU_RetireNode (m_head l) l2)"
    unfolding rcu_inv_def using q(2,4) heap hd by (auto simp: h2)
qed

lemma publish_first_props:
  fixes xs :: "'a list" and l :: "'a RCUList"
  assumes inv: "rcu_inv l" and old: "m_head l = 0"
  defines "l2 \<equiv> (snd (new_Node xs l))\<lparr>m_head := fst (new_Node xs l)\<rparr>"
  shows "Items l2 = xs" and "rcu_inv l2" and "m_head l2 = next_node l"
proof -
  have h2: "m_head l2 = next_node l" "next_node l2 = Suc (next_node l)"
    "node_heap l2 = (node_heap l)(next_node l \<mapsto> xs)" "domain l2 = domain l"
    by (simp_all add: l2_def new_Node_def)
  from inv old have pos: "0 < next_node l" by (simp add: rcu_inv_def)
  then show "Items l2 = xs" by (simp add: Items_def h2 node_items_def)
  from inv pos show "rcu_inv l2" by (auto simp: rcu_inv_def h2)
  show "m_head l2 = next_node l" by (rule h2)
qed

lemma Add_props:
  assumes "rcu_inv l"
  shows "Items (Add x l) = Items l @ [x]" and "rcu_inv (Add x l)"
proof -
  show "Items (Add x l) = Items l @ [x]"
  proof (cases "m_head l = 0")
    case True
    then have "Add x l = (snd (new_Node [x] l))\<lparr>m_head := fst (new_Node [x] l)\<rparr>"
      by (simp add: Add_def Let_def split_beta)
    with publish_first_props(1) [OF assms True, of "[x]"] True show ?thesis
      by (simp add: Items_def)
  next
    case False
    then have "Add x l = RCU_RetireNode (m_head l)
                 ((snd (new_Node (node_items l (m_head l) @ [x]) l))
                    \<lparr>m_head := fst (new_Node (node_items l (m_head l) @ [x]) l)\<rparr>)"
      by (simp add: Add_def Let_def split_beta)
    with publish_props(1) [OF assms False, of "node_items l (m_head l) @ [x]"] False show ?thesis
      by (simp add: Items_def)
  qed
  show "rcu_inv (Add x l)"
  proof (cases "m_head l = 0")
    case True
    then have "Add x l = (snd (new_Node [x] l))\<lparr>m_head := fst (new_Node [x] l)\<rparr>"
      by (simp add: Add_def Let_def split_beta)
    with publish_first_props(2) [OF assms True, of "[x]"] show ?thesis by simp
  next
    case False
    then have "Add x l = RCU_RetireNode (m_head l)
                 ((snd (new_Node (node_items l (m_head l) @ [x]) l))
                    \<lparr>m_head := fst (new_Node (node_items l (m_head l) @ [x]) l)\<rparr>)"
      by (simp add: Add_def Let_def split_beta)
    with publish_props(2) [OF assms False, of "node_items l (m_head l) @ [x]"] show ?thesis by simp
  qed
qed

lemma Remove_absent:
  assumes "x \<notin> set (Items l)"
  shows "Remove x l = (False, l)"
  using assms by (auto simp: Remove_def Items_def Let_def list_ex_iff)

lemma Remove_present:
  assumes inv: "rcu_inv l" and "x \<in> set (Items l)"
  shows "fst (Remove x l)"
    and "Items (snd (Remove x l)) = filter (\<lambda>e. e \<noteq> x) (Items l)"
    and "m_head (snd (Remove x l)) \<noteq> m_head l"
    and "rcu_inv (snd (Remove x l))"
proof -
  from assms(2) have hd: "m_head l \<noteq> 0" and ne: "node_items l (m_head l) \<noteq> []"
    and mem: "x \<in> set (node_items l (m_head l))"
    by (auto simp: Items_def split: if_splits)
  let ?xs = "filter (\<lambda>e. \<not> (e = x)) (node_items l (m_head l))"
  have eq: "Remove x l = (True, RCU_RetireNode (m_head l)
                 ((snd (new_Node ?xs l))\<lparr>m_head := fst (new_Node ?xs l)\<rparr>))"
    using hd ne mem by (simp add: Remove_def Let_def split_beta list_ex_iff)
  note p = publish_props [OF inv hd, of ?xs]
  show "fst (Remove x l)" by (simp add: eq)
  show "Items (snd (Remove x l)) = filter (\<lambda>e. e \<noteq> x) (Items l)"
    using p(1) hd by (simp add: eq Items_def)
  show "m_head (snd (Remove x l)) \<noteq> m_head l"
    using p(3) inv by (simp add: eq rcu_inv_def)
  show "rcu_inv (snd (Remove x l))" using p(2) by (simp add: eq)
qed

lemma rcu_inv_ctor: "rcu_inv RCUList_ctor"
  by (simp add: rcu_inv_def RCUList_ctor_def HazardPointerDomain_ctor_def)

text \<open>
  C3, amended. For every list state that satisfies the list invariant: \<open>Remove item\<close>
  returns false and leaves the list unchanged when \<open>item\<close> is absent; otherwise it
  returns true and publishes, under a new node, the snapshot that omits every entry
  equal to \<open>item\<close> and keeps all others in order. Consequently \<open>Add x\<close> followed by
  \<open>Remove x\<close> leaves the items as they were before the \<open>Add\<close> when \<open>x\<close> was not in
  the list, and leaves them without any \<open>x\<close> when it was.
\<close>

theorem Remove_drops_every_match:
  assumes "rcu_inv l"
  shows "(if item \<in> set (Items l)
          then fst (Remove item l)
               \<and> Items (snd (Remove item l)) = filter (\<lambda>e. e \<noteq> item) (Items l)
               \<and> m_head (snd (Remove item l)) \<noteq> m_head l
          else Remove item l = (False, l))
         \<and> (if x \<in> set (Items l)
            then Items (snd (Remove x (Add x l))) = filter (\<lambda>e. e \<noteq> x) (Items l)
            else Items (snd (Remove x (Add x l))) = Items l)"
proof -
  note a = Add_props [OF assms, of x]
  have "x \<in> set (Items (Add x l))" by (simp add: a(1))
  from Remove_present(2) [OF a(2) this]
  have "Items (snd (Remove x (Add x l))) = filter (\<lambda>e. e \<noteq> x) (Items l)"
    by (simp add: a(1))
  moreover have "x \<notin> set (Items l) \<Longrightarrow> filter (\<lambda>e. e \<noteq> x) (Items l) = Items l"
    by (auto simp: filter_id_conv)
  ultimately show ?thesis
    using Remove_present [OF assms, of item] Remove_absent [of item l] by auto
qed

lemma rcu_examples:
  "rcu_inv (Add (5::nat) (Add 7 (Add 5 RCUList_ctor)))"
  "Items (Add (5::nat) (Add 7 (Add 5 RCUList_ctor))) = [5, 7, 5]"
  "rcu_inv (Add (5::nat) (Add 5 RCUList_ctor))"
  "Items (Add (5::nat) (Add 5 RCUList_ctor)) = [5, 5]"
  "Items (Add (5::nat) RCUList_ctor) = [5]"
  "rcu_inv (Add (7::nat) RCUList_ctor)"
  "Items (Add (7::nat) RCUList_ctor) = [7]"
proof -
  have e0: "Items (RCUList_ctor :: nat RCUList) = []" by (simp add: Items_def RCUList_ctor_def)
  note a1 = Add_props [OF rcu_inv_ctor, of "5::nat"]
  note a2 = Add_props [OF a1(2), of 7]
  note a3 = Add_props [OF a2(2), of 5]
  note b2 = Add_props [OF a1(2), of 5]
  note c1 = Add_props [OF rcu_inv_ctor, of "7::nat"]
  show "rcu_inv (Add (5::nat) (Add 7 (Add 5 RCUList_ctor)))" by (rule a3(2))
  show "Items (Add (5::nat) (Add 7 (Add 5 RCUList_ctor))) = [5, 7, 5]"
    using a3(1) a2(1) a1(1) e0 by simp
  show "rcu_inv (Add (5::nat) (Add 5 RCUList_ctor))" by (rule b2(2))
  show "Items (Add (5::nat) (Add 5 RCUList_ctor)) = [5, 5]" using b2(1) a1(1) e0 by simp
  show "Items (Add (5::nat) RCUList_ctor) = [5]" using a1(1) e0 by simp
  show "rcu_inv (Add (7::nat) RCUList_ctor)" by (rule c1(2))
  show "Items (Add (7::nat) RCUList_ctor) = [7]" using c1(1) e0 by simp
qed

text \<open>
  C3 as stated fails: on the list 5, 7, 5 \<open>Remove 5\<close> leaves 7, not 7, 5; and on the
  list 5, \<open>Add 5\<close> then \<open>Remove 5\<close> leaves the empty list.
\<close>

theorem Remove_first_match_only_counterexample:
  "Items (snd (Remove (5::nat) (Add 5 (Add 7 (Add 5 RCUList_ctor)))))
     \<noteq> remove1 5 (Items (Add 5 (Add 7 (Add 5 RCUList_ctor))))
   \<and> Items (snd (Remove (5::nat) (Add 5 (Add 5 RCUList_ctor)))) \<noteq> Items (Add 5 RCUList_ctor)"
  using Remove_present(2) [OF rcu_examples(1), of 5] Remove_present(2) [OF rcu_examples(3), of 5]
  by (simp add: rcu_examples)

theorem Remove_drops_every_match_witness:
  "fst (Remove (5::nat) (Add 5 (Add 7 (Add 5 RCUList_ctor))))
   \<and> Items (snd (Remove (5::nat) (Add 5 (Add 7 (Add 5 RCUList_ctor))))) = [7]
   \<and> Remove (9::nat) (Add 7 RCUList_ctor) = (False, Add 7 RCUList_ctor)
   \<and> Items (snd (Remove (9::nat) (Add 9 (Add 7 RCUList_ctor)))) = [7]"
  using Remove_drops_every_match [OF rcu_examples(1), of 5 5]
    Remove_drops_every_match [OF rcu_examples(6), of 9 9]
  by (simp add: rcu_examples)

subsection \<open>The ring queue of capacity 1\<close>

lemma RoundUpPow2_1: "RoundUpPow2 1 = 1"
  by (simp add: RoundUpPow2_def)

lemma ctor1: "MessageQueue_ctor 1 = \<lparr>m_slots = [\<lparr>sequence = 0, slot_message = None\<rparr>], mq_capacity = 1,
   m_producerIndex = 0, m_consumerIndex = 0, mq_peakUsage = 0\<rparr>"
  by (simp add: MessageQueue_ctor_def RoundUpPow2_1)

text \<open>
  C4 fails for the smallest queue. A queue constructed with capacity 1 has index mask 0:
  after the first enqueue its only slot carries sequence 1, which is again the
  producer index, so the second enqueue succeeds too and overwrites the first message.
  Two enqueues have then succeeded and no dequeue, on a queue of capacity 1, and
  \<open>TryDequeue\<close> finds sequence 2 where it expects 1 and returns null.
\<close>

theorem capacity_one_queue_overfills:
  "Capacity (MessageQueue_ctor 1) = 1
   \<and> fst (TryEnqueue (Some (LocalSlot 0)) (MessageQueue_ctor 1))
   \<and> fst (TryEnqueue (Some (LocalSlot 1)) (snd (TryEnqueue (Some (LocalSlot 0)) (MessageQueue_ctor 1))))
   \<and> fst (TryDequeue (snd (TryEnqueue (Some (LocalSlot 1))
              (snd (TryEnqueue (Some (LocalSlot 0)) (MessageQueue_ctor 1)))))) = None
   \<and> snd (snd (queue_run [Enqueue (Some (LocalSlot 0)), Enqueue (Some (LocalSlot 1)), Dequeue]
              (MessageQueue_ctor 1, 0, 0))) = 0
   \<and> fst (snd (queue_run [Enqueue (Some (LocalSlot 0)), Enqueue (Some (LocalSlot 1)), Dequeue]
              (MessageQueue_ctor 1, 0, 0))) = 2"
  by (simp add: ctor1 Capacity_def TryEnqueue_def TryDequeue_def IndexMask_def Size_def Let_def)

subsection \<open>The queue of a worker: the highest priority is taken first\<close>

lemma heap_upto_iff:
  "heap_upto len xs \<longleftrightarrow> (\<forall>i. 0 < i \<and> i < len \<longrightarrow> priority (xs ! i) \<le> priority (xs ! ((i - 1) div 2)))"
  by (auto simp: heap_upto_def list_all_iff)

lemma heap_top_max:
  assumes "heap_upto len xs"
  shows "i < len \<Longrightarrow> priority (xs ! i) \<le> priority (xs ! 0)"
proof (induction i rule: less_induct)
  case (less i)
  show ?case
  proof (cases "i = 0")
    case True
    then show ?thesis by simp
  next
    case False
    then have p: "(i - 1) div 2 < i" by simp
    with less.prems have "(i - 1) div 2 < len" by simp
    from less.IH [OF p this] have "priority (xs ! ((i - 1) div 2)) \<le> priority (xs ! 0)" .
    moreover from assms False less.prems have "priority (xs ! i) \<le> priority (xs ! ((i - 1) div 2))"
      by (simp add: heap_upto_iff)
    ultimately show ?thesis by simp
  qed
qed

lemma mset_move_hole:
  assumes "h < length ys" "p < length ys" "h \<noteq> p"
  shows "mset ((ys[h := ys ! p])[p := v]) = mset (ys[h := v])"
  using assms by (simp add: mset_update nth_list_update)

lemma push_heap_loop_spec:
  assumes "h < len" "len \<le> length xs"
    and "\<forall>i. 0 < i \<and> i < len \<and> i \<noteq> h \<and> (i - 1) div 2 \<noteq> h
             \<longrightarrow> priority (xs ! i) \<le> priority (xs ! ((i - 1) div 2))"
    and "\<forall>i. 0 < i \<and> i < len \<and> (i - 1) div 2 = h \<longrightarrow> priority (xs ! i) \<le> priority v"
    and "0 < h \<longrightarrow> (\<forall>i. 0 < i \<and> i < len \<and> (i - 1) div 2 = h
             \<longrightarrow> priority (xs ! i) \<le> priority (xs ! ((h - 1) div 2)))"
  shows "heap_upto len (push_heap_loop xs h 0 v)
         \<and> length (push_heap_loop xs h 0 v) = length xs
         \<and> drop len (push_heap_loop xs h 0 v) = drop len xs
         \<and> mset (take len (push_heap_loop xs h 0 v)) = mset (take len (xs[h := v]))"
  using assms
proof (induction xs h "0::nat" v rule: push_heap_loop.induct)
  case (1 xs h v)
  define p where "p = (h - 1) div 2"
  have hl: "h < length xs" using "1.prems"(1,2) by simp
  show ?case
  proof (cases "h > 0 \<and> item_less (xs ! p) v")
    case True
    then have hp: "p < h" "0 < h" and lt: "priority (xs ! p) < priority v"
      by (auto simp: p_def item_less_def)
    define xs' where "xs' = xs[h := xs ! p]"
    have eq: "push_heap_loop xs h 0 v = push_heap_loop xs' p 0 v"
      using True by (subst push_heap_loop.simps) (simp add: Let_def p_def xs'_def)
    have len': "length xs' = length xs" by (simp add: xs'_def)
    have nth_h: "xs' ! h = xs ! p" using hl by (simp add: xs'_def)
    have nth_o: "\<And>i. i \<noteq> h \<Longrightarrow> xs' ! i = xs ! i" by (simp add: xs'_def)
    have plen: "p < len" using hp "1.prems"(1) by simp
    have php: "p \<noteq> h" "(p - 1) div 2 \<noteq> h" using hp by auto
    have pp: "0 < p \<Longrightarrow> priority (xs ! p) \<le> priority (xs ! ((p - 1) div 2))"
      using "1.prems"(3) plen php by simp
    have sib: "priority (xs ! i) \<le> priority (xs ! p)"
      if "0 < i" "i < len" "(i - 1) div 2 = p" "i \<noteq> h" for i
    proof -
      from that php have "0 < i \<and> i < len \<and> i \<noteq> h \<and> (i - 1) div 2 \<noteq> h" by simp
      with "1.prems"(3) have "priority (xs ! i) \<le> priority (xs ! ((i - 1) div 2))" by blast
      with that(3) show ?thesis by simp
    qed
    have H: "\<forall>i. 0 < i \<and> i < len \<and> i \<noteq> p \<and> (i - 1) div 2 \<noteq> p
               \<longrightarrow> priority (xs' ! i) \<le> priority (xs' ! ((i - 1) div 2))"
    proof (intro allI impI)
      fix i assume a: "0 < i \<and> i < len \<and> i \<noteq> p \<and> (i - 1) div 2 \<noteq> p"
      show "priority (xs' ! i) \<le> priority (xs' ! ((i - 1) div 2))"
      proof (cases "i = h")
        case True
        with a have False by (simp add: p_def)
        then show ?thesis ..
      next
        case ih: False
        show ?thesis
        proof (cases "(i - 1) div 2 = h")
          case True
          with "1.prems"(5) hp(2) a have "priority (xs ! i) \<le> priority (xs ! p)"
            unfolding p_def by blast
          then show ?thesis unfolding True nth_h nth_o [OF ih] .
        next
          case False
          with "1.prems"(3) a ih have "priority (xs ! i) \<le> priority (xs ! ((i - 1) div 2))" by blast
          then show ?thesis unfolding nth_o [OF ih] nth_o [OF False] .
        qed
      qed
    qed
    have C: "\<forall>i. 0 < i \<and> i < len \<and> (i - 1) div 2 = p \<longrightarrow> priority (xs' ! i) \<le> priority v"
    proof (intro allI impI)
      fix i assume a: "0 < i \<and> i < len \<and> (i - 1) div 2 = p"
      show "priority (xs' ! i) \<le> priority v"
      proof (cases "i = h")
        case True
        from lt show ?thesis unfolding True nth_h by simp
      next
        case False
        with sib [of i] a have "priority (xs ! i) \<le> priority (xs ! p)" by blast
        with lt show ?thesis unfolding nth_o [OF False] by simp
      qed
    qed
    have G: "0 < p \<longrightarrow> (\<forall>i. 0 < i \<and> i < len \<and> (i - 1) div 2 = p
               \<longrightarrow> priority (xs' ! i) \<le> priority (xs' ! ((p - 1) div 2)))"
    proof (intro allI impI)
      fix i assume pos: "0 < p" and a: "0 < i \<and> i < len \<and> (i - 1) div 2 = p"
      have top: "xs' ! ((p - 1) div 2) = xs ! ((p - 1) div 2)" using php(2) by (rule nth_o)
      show "priority (xs' ! i) \<le> priority (xs' ! ((p - 1) div 2))"
      proof (cases "i = h")
        case True
        from pp [OF pos] show ?thesis unfolding True nth_h top .
      next
        case False
        with sib [of i] a have "priority (xs ! i) \<le> priority (xs ! p)" by blast
        from this pp [OF pos] have "priority (xs ! i) \<le> priority (xs ! ((p - 1) div 2))"
          by (rule order_trans)
        then show ?thesis unfolding nth_o [OF False] top .
      qed
    qed
    have l2: "len \<le> length xs'" using "1.prems"(2) by (simp add: len')
    note IH = "1.hyps" [OF p_def True, folded xs'_def, OF plen l2 H C G]
    have "mset (take len (xs'[p := v])) = mset (take len (xs[h := v]))"
      using mset_move_hole [of h "take len xs" p v] "1.prems"(1,2) plen php(1)
      by (simp add: xs'_def take_update_swap)
    moreover have "drop len xs' = drop len xs"
      using "1.prems"(1) by (simp add: xs'_def drop_update_cancel)
    ultimately show ?thesis unfolding eq using IH by (simp add: len')
  next
    case False
    have eq: "push_heap_loop xs h 0 v = xs[h := v]"
      using False by (subst push_heap_loop.simps) (auto simp: Let_def p_def)
    have nth_h: "xs[h := v] ! h = v" using hl by simp
    have nth_o: "\<And>i. i \<noteq> h \<Longrightarrow> xs[h := v] ! i = xs ! i" by simp
    have "heap_upto len (xs[h := v])"
      unfolding heap_upto_iff
    proof (intro allI impI)
      fix i assume a: "0 < i \<and> i < len"
      show "priority (xs[h := v] ! i) \<le> priority (xs[h := v] ! ((i - 1) div 2))"
      proof (cases "i = h")
        case True
        with False a have "\<not> priority (xs ! p) < priority v" by (simp add: item_less_def)
        moreover have "p \<noteq> h" using True a unfolding p_def by auto
        ultimately show ?thesis unfolding True nth_h p_def [symmetric] nth_o [OF \<open>p \<noteq> h\<close>] by simp
      next
        case ih: False
        show ?thesis
        proof (cases "(i - 1) div 2 = h")
          case True
          with "1.prems"(4) a have "priority (xs ! i) \<le> priority v" by blast
          then show ?thesis unfolding True nth_h nth_o [OF ih] .
        next
          case False
          with "1.prems"(3) a ih have "priority (xs ! i) \<le> priority (xs ! ((i - 1) div 2))" by blast
          then show ?thesis unfolding nth_o [OF ih] nth_o [OF False] .
        qed
      qed
    qed
    moreover have "drop len (xs[h := v]) = drop len xs"
      using "1.prems"(1) by (simp add: drop_update_cancel)
    ultimately show ?thesis unfolding eq by simp
  qed
qed

lemma children_of:
  "0 < (i::nat) \<Longrightarrow> (i - 1) div 2 = h \<longleftrightarrow> (i = 2 * h + 1 \<or> i = 2 * h + 2)"
  by auto

lemma heap_move_child_up:
  assumes hp: "heap_upto len xs" and c: "c < len" "0 < c" "(c - 1) div 2 = h" "len \<le> length xs"
    and big: "\<forall>i. 0 < i \<and> i < len \<and> (i - 1) div 2 = h \<longrightarrow> priority (xs ! i) \<le> priority (xs ! c)"
  shows "heap_upto len (xs[h := xs ! c])"
  unfolding heap_upto_iff
proof (intro allI impI)
  fix i assume a: "0 < i \<and> i < len"
  have hc: "h < c" using c(2,3) by auto
  then have hl: "h < length xs" using c(1,4) by simp
  have nth_h: "xs[h := xs ! c] ! h = xs ! c" using hl by simp
  have nth_o: "\<And>j. j \<noteq> h \<Longrightarrow> xs[h := xs ! c] ! j = xs ! j" by simp
  have hpD: "\<And>j. 0 < j \<Longrightarrow> j < len \<Longrightarrow> priority (xs ! j) \<le> priority (xs ! ((j - 1) div 2))"
    using hp unfolding heap_upto_iff by blast
  show "priority (xs[h := xs ! c] ! i) \<le> priority (xs[h := xs ! c] ! ((i - 1) div 2))"
  proof (cases "i = h")
    case True
    have ph: "(h - 1) div 2 \<noteq> h" using a True by auto
    have "priority (xs ! c) \<le> priority (xs ! h)" using hpD [OF c(2,1)] unfolding c(3) .
    also have "\<dots> \<le> priority (xs ! ((h - 1) div 2))" using hpD [of h] a True by blast
    finally show ?thesis unfolding True nth_h nth_o [OF ph] .
  next
    case ih: False
    show ?thesis
    proof (cases "(i - 1) div 2 = h")
      case True
      with big a have "priority (xs ! i) \<le> priority (xs ! c)" by blast
      then show ?thesis unfolding True nth_h nth_o [OF ih] .
    next
      case False
      from hpD [of i] a have "priority (xs ! i) \<le> priority (xs ! ((i - 1) div 2))" by blast
      then show ?thesis unfolding nth_o [OF ih] nth_o [OF False] .
    qed
  qed
qed

lemma adjust_heap_loop_spec:
  assumes "heap_upto len xs" "len \<le> length xs" "h < len" "sc = h"
  shows "case adjust_heap_loop xs h sc len of
           (xs', h', sc') \<Rightarrow>
             heap_upto len xs' \<and> h' = sc' \<and> h' < len \<and> (len - 1) div 2 \<le> h'
             \<and> length xs' = length xs \<and> drop len xs' = drop len xs
             \<and> (\<forall>v. mset (take len (xs'[h' := v])) = mset (take len (xs[h := v])))"
  using assms
proof (induction xs h sc len rule: adjust_heap_loop.induct)
  case (1 xs h sc len)
  show ?case
  proof (cases "sc < (len - 1) div 2")
    case False
    have "adjust_heap_loop xs h sc len = (xs, h, sc)"
      using False by (subst adjust_heap_loop.simps) simp
    with "1.prems" False show ?thesis by simp
  next
    case True
    define c1 where "c1 = 2 * (sc + 1)"
    define c where "c = (if item_less (xs ! c1) (xs ! (c1 - 1)) then c1 - 1 else c1)"
    define xs' where "xs' = xs[h := xs ! c]"
    have eq: "adjust_heap_loop xs h sc len = adjust_heap_loop xs' c c len"
      using True by (subst adjust_heap_loop.simps) (simp add: Let_def c1_def c_def xs'_def)
    have sch: "sc = h" by (rule "1.prems"(4))
    have c1len: "c1 < len" using True unfolding c1_def by auto
    have cc: "c = 2 * h + 1 \<or> c = 2 * h + 2" unfolding c_def c1_def sch by auto
    then have cpar: "(c - 1) div 2 = h" and cpos: "0 < c" and hc: "h < c" by auto
    have clen: "c < len" using c1len unfolding c_def by auto
    have other: "priority (xs ! (2 * h + 1)) \<le> priority (xs ! c) \<and> priority (xs ! (2 * h + 2)) \<le> priority (xs ! c)"
    proof (cases "item_less (xs ! c1) (xs ! (c1 - 1))")
      case True
      then have "c = 2 * h + 1" "priority (xs ! (2 * h + 2)) < priority (xs ! (2 * h + 1))"
        unfolding c_def c1_def sch item_less_def by auto
      then show ?thesis by simp
    next
      case False
      then have "c = 2 * h + 2" "\<not> priority (xs ! (2 * h + 2)) < priority (xs ! (2 * h + 1))"
        unfolding c_def c1_def sch item_less_def by auto
      then show ?thesis by simp
    qed
    have big: "\<forall>i. 0 < i \<and> i < len \<and> (i - 1) div 2 = h \<longrightarrow> priority (xs ! i) \<le> priority (xs ! c)"
    proof (intro allI impI)
      fix i assume "0 < i \<and> i < len \<and> (i - 1) div 2 = h"
      then have "i = 2 * h + 1 \<or> i = 2 * h + 2" using children_of [of i h] by blast
      with other show "priority (xs ! i) \<le> priority (xs ! c)" by blast
    qed
    have hp': "heap_upto len xs'"
      unfolding xs'_def using "1.prems"(1) clen cpos cpar "1.prems"(2) big by (rule heap_move_child_up)
    have l': "len \<le> length xs'" using "1.prems"(2) by (simp add: xs'_def)
    have IH: "case adjust_heap_loop xs' c c len of
           (xs'', h', sc') \<Rightarrow>
             heap_upto len xs'' \<and> h' = sc' \<and> h' < len \<and> (len - 1) div 2 \<le> h'
             \<and> length xs'' = length xs' \<and> drop len xs'' = drop len xs'
             \<and> (\<forall>v. mset (take len (xs''[h' := v])) = mset (take len (xs'[c := v])))"
      using "1.IH" [OF True c1_def c_def, folded xs'_def, OF hp' l' clen refl] .
    have ms: "mset (take len (xs'[c := v])) = mset (take len (xs[h := v]))" for v
      using mset_move_hole [of h "take len xs" c v] "1.prems"(2,3) clen hc
      by (simp add: xs'_def take_update_swap)
    have dr: "drop len xs' = drop len xs"
      using "1.prems"(3) by (simp add: xs'_def drop_update_cancel)
    have le: "length xs' = length xs" by (simp add: xs'_def)
    show ?thesis unfolding eq using IH by (auto simp: ms dr le)
  qed
qed

lemma no_children_push:
  assumes hp: "heap_upto len xs" and h: "h < len" "len \<le> length xs"
    and leaf: "len \<le> 2 * h + 1"
  shows "heap_upto len (push_heap_loop xs h 0 v)
         \<and> length (push_heap_loop xs h 0 v) = length xs
         \<and> drop len (push_heap_loop xs h 0 v) = drop len xs
         \<and> mset (take len (push_heap_loop xs h 0 v)) = mset (take len (xs[h := v]))"
proof (rule push_heap_loop_spec [OF h])
  have nochild: "\<And>i. 0 < i \<Longrightarrow> i < len \<Longrightarrow> (i - 1) div 2 \<noteq> h"
    using leaf children_of by fastforce
  show "\<forall>i. 0 < i \<and> i < len \<and> i \<noteq> h \<and> (i - 1) div 2 \<noteq> h
          \<longrightarrow> priority (xs ! i) \<le> priority (xs ! ((i - 1) div 2))"
    using hp unfolding heap_upto_iff by blast
  show "\<forall>i. 0 < i \<and> i < len \<and> (i - 1) div 2 = h \<longrightarrow> priority (xs ! i) \<le> priority v"
    using nochild by blast
  show "0 < h \<longrightarrow> (\<forall>i. 0 < i \<and> i < len \<and> (i - 1) div 2 = h
          \<longrightarrow> priority (xs ! i) \<le> priority (xs ! ((h - 1) div 2)))"
    using nochild by blast
qed

lemma adjust_heap_spec:
  assumes hp: "heap_upto len xs" and len: "0 < len" "len \<le> length xs"
  shows "heap_upto len (adjust_heap xs 0 len v)
         \<and> length (adjust_heap xs 0 len v) = length xs
         \<and> drop len (adjust_heap xs 0 len v) = drop len xs
         \<and> mset (take len (adjust_heap xs 0 len v)) = mset (take len (xs[0 := v]))"
proof -
  obtain xs1 h1 sc1 where loop: "adjust_heap_loop xs 0 0 len = (xs1, h1, sc1)"
    by (cases "adjust_heap_loop xs 0 0 len") auto
  from adjust_heap_loop_spec [OF hp len(2,1) refl] loop
  have l: "heap_upto len xs1" "h1 = sc1" "h1 < len" "(len - 1) div 2 \<le> h1"
    "length xs1 = length xs" "drop len xs1 = drop len xs"
    "\<And>v. mset (take len (xs1[h1 := v])) = mset (take len (xs[0 := v]))"
    by auto
  show ?thesis
  proof (cases "len mod 2 = 0 \<and> sc1 = (len - 2) div 2")
    case True
    define c where "c = 2 * (sc1 + 1) - 1"
    have ce: "c = len - 1" and c1: "c = 2 * h1 + 1" using True l(2) len(1) unfolding c_def by auto
    have clen: "c < len" "0 < c" "(c - 1) div 2 = h1" using len(1) c1 ce by auto
    define xs2 where "xs2 = xs1[h1 := xs1 ! c]"
    have eq: "adjust_heap xs 0 len v = push_heap_loop xs2 c 0 v"
      using True by (simp add: adjust_heap_def loop Let_def xs2_def c_def)
    have big: "\<forall>i. 0 < i \<and> i < len \<and> (i - 1) div 2 = h1 \<longrightarrow> priority (xs1 ! i) \<le> priority (xs1 ! c)"
    proof (intro allI impI)
      fix i assume a: "0 < i \<and> i < len \<and> (i - 1) div 2 = h1"
      then have "i = 2 * h1 + 1 \<or> i = 2 * h1 + 2" using children_of [of i h1] by blast
      with a c1 ce have "i = c" by auto
      then show "priority (xs1 ! i) \<le> priority (xs1 ! c)" by simp
    qed
    have l1: "len \<le> length xs1" using len(2) l(5) by simp
    have hp2: "heap_upto len xs2"
      unfolding xs2_def using l(1) clen l1 big by (rule heap_move_child_up)
    have l2: "len \<le> length xs2" using l1 by (simp add: xs2_def)
    have leaf: "len \<le> 2 * c + 1" using ce by auto
    note p = no_children_push [OF hp2 clen(1) l2 leaf, of v]
    have hc: "h1 \<noteq> c" using c1 by auto
    have "mset (take len (xs2[c := v])) = mset (take len (xs1[h1 := v]))"
      using mset_move_hole [of h1 "take len xs1" c v] l(3) l1 clen(1) hc
      by (simp add: xs2_def take_update_swap)
    moreover have "drop len xs2 = drop len xs1" using l(3) by (simp add: xs2_def drop_update_cancel)
    moreover have "length xs2 = length xs1" by (simp add: xs2_def)
    ultimately show ?thesis unfolding eq using p l(5,6,7) by simp
  next
    case False
    have eq: "adjust_heap xs 0 len v = push_heap_loop xs1 h1 0 v"
      using False by (auto simp: adjust_heap_def loop Let_def)
    have leaf: "len \<le> 2 * h1 + 1"
    proof (cases "len mod 2 = 0")
      case True
      with False l(2) have "h1 \<noteq> (len - 2) div 2" by simp
      with l(4) True len(1) show ?thesis by presburger
    next
      case False
      with l(4) show ?thesis by presburger
    qed
    have l1: "len \<le> length xs1" using len(2) l(5) by simp
    note p = no_children_push [OF l(1,3) l1 leaf, of v]
    show ?thesis unfolding eq using p l(5,6,7) by simp
  qed
qed

lemma heap_upto_take: "heap_upto n (take n ys) = heap_upto n ys"
  unfolding heap_upto_iff
proof (intro iff_allI imp_cong refl)
  fix i assume "0 < i \<and> i < n"
  then have "i < n" "(i - 1) div 2 < n" by auto
  then show "(priority (take n ys ! i) \<le> priority (take n ys ! ((i - 1) div 2)))
           = (priority (ys ! i) \<le> priority (ys ! ((i - 1) div 2)))"
    by (simp only: nth_take)
qed

lemma is_heap_butlast_pop:
  assumes "is_heap q" "q \<noteq> []"
  shows "is_heap (pq_pop q)" and "mset (pq_pop q) = mset q - {#pq_top q#}"
proof -
  have both: "is_heap (pq_pop q) \<and> mset (pq_pop q) = mset q - {#pq_top q#}"
  proof (cases "length q > 1")
    case False
    with assms(2) have "length q = 1" by (cases q) auto
    then obtain x where "q = [x]" by (cases q) auto
    then show ?thesis
      by (simp add: pq_pop_def pop_heap_def pq_top_def is_heap_def heap_upto_def)
  next
    case True
    define n where "n = length q - 1"
    define xs where "xs = q[n := q ! 0]"
    have n: "0 < n" "n < length q" "Suc n = length q" using True by (simp_all add: n_def)
    have eq: "pop_heap q = adjust_heap xs 0 n (q ! n)"
      using True by (simp add: pop_heap_def Let_def n_def xs_def)
    have hq: "heap_upto n xs"
      using assms(1) n unfolding is_heap_def heap_upto_iff xs_def by auto
    have ln: "n \<le> length xs" using n by (simp add: xs_def)
    note a = adjust_heap_spec [OF hq n(1) ln, of "q ! n"]
    have len: "length (pop_heap q) = Suc n" using a n by (simp add: eq xs_def)
    then have bl: "pq_pop q = take n (pop_heap q)" by (simp add: pq_pop_def butlast_conv_take)
    have "length (take n (pop_heap q)) = n" using len by simp
    then have h: "is_heap (pq_pop q)"
      using a unfolding bl is_heap_def eq by (simp only: heap_upto_take)
    have "(take n q)[n := q ! 0] = take n q" by (rule list_update_beyond) simp
    then have tk: "take n (xs[0 := q ! n]) = (take n q)[0 := q ! n]"
      by (simp add: xs_def take_update_swap)
    have q: "q = take n q @ [q ! n]" using n by (metis lessI take_Suc_conv_app_nth take_all_iff le_refl)
    have "mset (pq_pop q) = mset ((take n q)[0 := q ! n])"
      using a unfolding bl eq tk by simp
    also have "\<dots> = add_mset (q ! n) (mset (take n q) - {#q ! 0#})"
      using n by (simp add: mset_update)
    also have "\<dots> = add_mset (q ! n) (mset (take n q)) - {#q ! 0#}"
    proof -
      have "q ! 0 \<in># mset (take n q)" using n by (simp add: in_set_conv_nth) (metis nth_take)
      then show ?thesis by (simp add: multiset_eq_iff)
    qed
    also have "\<dots> = mset q - {#q ! 0#}" by (subst (2) q) simp
    finally have "mset (pq_pop q) = mset q - {#pq_top q#}" by (simp add: pq_top_def)
    with h show ?thesis by simp
  qed
  then show "is_heap (pq_pop q)" and "mset (pq_pop q) = mset q - {#pq_top q#}" by simp_all
qed

lemma is_heap_push:
  assumes "is_heap q"
  shows "is_heap (pq_push x q)" and "mset (pq_push x q) = add_mset x (mset q)"
proof -
  define xs where "xs = q @ [x]"
  define n where "n = length q"
  have eq: "pq_push x q = push_heap_loop xs n 0 x"
    by (simp add: pq_push_def push_heap_def xs_def n_def)
  have hp: "heap_upto n xs"
    using assms unfolding is_heap_def heap_upto_iff xs_def n_def by (auto simp: nth_append)
  have nochild: "\<And>i. 0 < i \<Longrightarrow> i < Suc n \<Longrightarrow> (i - 1) div 2 \<noteq> n"
    using children_of by fastforce
  have p: "heap_upto (Suc n) (push_heap_loop xs n 0 x)
         \<and> length (push_heap_loop xs n 0 x) = length xs
         \<and> drop (Suc n) (push_heap_loop xs n 0 x) = drop (Suc n) xs
         \<and> mset (take (Suc n) (push_heap_loop xs n 0 x)) = mset (take (Suc n) (xs[n := x]))"
  proof (rule push_heap_loop_spec)
    show "n < Suc n" by simp
    show "Suc n \<le> length xs" by (simp add: xs_def n_def)
    show "\<forall>i. 0 < i \<and> i < Suc n \<and> i \<noteq> n \<and> (i - 1) div 2 \<noteq> n
            \<longrightarrow> priority (xs ! i) \<le> priority (xs ! ((i - 1) div 2))"
      using hp unfolding heap_upto_iff by (auto simp: less_Suc_eq)
    show "\<forall>i. 0 < i \<and> i < Suc n \<and> (i - 1) div 2 = n \<longrightarrow> priority (xs ! i) \<le> priority x"
      using nochild by blast
    show "0 < n \<longrightarrow> (\<forall>i. 0 < i \<and> i < Suc n \<and> (i - 1) div 2 = n
            \<longrightarrow> priority (xs ! i) \<le> priority (xs ! ((n - 1) div 2)))"
      using nochild by blast
  qed
  have len: "length (pq_push x q) = Suc n" using p by (simp add: eq xs_def n_def)
  from p have "heap_upto (Suc n) (pq_push x q)" unfolding eq by blast
  then show "is_heap (pq_push x q)" unfolding is_heap_def len .
  have "mset (pq_push x q) = mset (take (Suc n) (pq_push x q))" using len by simp
  also have "\<dots> = mset (take (Suc n) (xs[n := x]))" using p by (simp add: eq)
  also have "\<dots> = add_mset x (mset q)" by (simp add: xs_def n_def)
  finally show "mset (pq_push x q) = add_mset x (mset q)" .
qed

lemma is_heap_Nil: "is_heap []"
  by (simp add: is_heap_def heap_upto_def)

lemma worker_run_heap:
  "is_heap q \<Longrightarrow> worker_run steps (q, taken) = (q', taken') \<Longrightarrow> is_heap q'"
proof (induction steps "(q, taken)" arbitrary: q taken rule: worker_run.induct)
  case 1
  then show ?case by simp
next
  case (2 x steps q taken)
  from "2.prems" "2.hyps" [OF is_heap_push(1) [OF "2.prems"(1)]] show ?case by simp
next
  case (3 steps q taken)
  show ?case
  proof (cases "q = []")
    case True
    with "3.prems" "3.hyps"(2) show ?thesis by simp
  next
    case False
    with "3.prems" "3.hyps"(1) [OF False is_heap_butlast_pop(1) [OF "3.prems"(1) False]]
    show ?thesis by simp
  qed
qed

lemma worker_run_append:
  "worker_run (xs @ ys) s = worker_run ys (worker_run xs s)"
proof (induction xs s rule: worker_run.induct)
  case (1 s)
  show ?case by simp
next
  case (2 x steps q taken)
  then show ?case by simp
next
  case (3 steps q taken)
  then show ?case by simp
qed

lemma worker_run_pending:
  "is_heap q \<Longrightarrow> worker_run steps (q, taken) = (q', taken') \<Longrightarrow>
     mset q' + mset taken' = mset q + mset taken + mset (pushed_items steps)"
proof (induction steps "(q, taken)" arbitrary: q taken rule: worker_run.induct)
  case 1
  then show ?case by simp
next
  case (2 x steps q taken)
  from "2.hyps" [OF is_heap_push(1) [OF "2.prems"(1)]] "2.prems"(2)
  have "mset q' + mset taken' = mset (pq_push x q) + mset taken + mset (pushed_items steps)"
    by simp
  then show ?case by (simp add: is_heap_push(2) [OF "2.prems"(1)])
next
  case (3 steps q taken)
  show ?case
  proof (cases "q = []")
    case True
    with "3.prems" "3.hyps"(2) show ?thesis by simp
  next
    case False
    have top: "pq_top q \<in># mset q" using False by (simp add: pq_top_def)
    from "3.hyps"(1) [OF False is_heap_butlast_pop(1) [OF "3.prems"(1) False]] "3.prems"(2) False
    have "mset q' + mset taken' = mset (pq_pop q) + mset (taken @ [pq_top q]) + mset (pushed_items steps)"
      by simp
    then show ?thesis
      using top by (simp add: is_heap_butlast_pop(2) [OF "3.prems"(1) False])
  qed
qed

text \<open>
  C5, amended. For every sequence of pushes and takes on one worker's queue, starting
  from the empty queue, with \<open>q\<close> the queue and \<open>taken\<close> the items the worker has
  processed so far, in order: the queued items are the pushed items that have not been
  taken; and when the worker takes its next item, then, if the queue is empty, nothing
  is taken, and otherwise the worker processes next an item \<open>x\<close> that was queued and
  such that no queued item has a higher priority, and exactly \<open>x\<close> leaves the queue.
  So a message with a higher priority is processed before any lower-priority message
  present at the same time. The order among queued items of equal priority is whatever
  the binary heap gives; it is not the push order.
\<close>

theorem worker_takes_highest_priority:
  assumes "worker_run steps ([], []) = (q, taken)"
  shows "mset q + mset taken = mset (pushed_items steps)
         \<and> (if q = [] then worker_run (steps @ [Take]) ([], []) = (q, taken)
            else \<exists>x q'. worker_run (steps @ [Take]) ([], []) = (q', taken @ [x])
                   \<and> x \<in># mset q
                   \<and> (\<forall>y \<in># mset q. priority y \<le> priority x)
                   \<and> mset q' = mset q - {#x#})"
proof -
  have h: "is_heap q" using is_heap_Nil assms(1) by (rule worker_run_heap)
  have pend: "mset q + mset taken = mset (pushed_items steps)"
    using worker_run_pending [OF is_heap_Nil assms] by simp
  have step: "worker_run (steps @ [Take]) ([], []) = worker_run [Take] (q, taken)"
    by (simp add: worker_run_append assms)
  show ?thesis
  proof (cases "q = []")
    case True
    with pend step show ?thesis by simp
  next
    case False
    have mx: "\<forall>y \<in># mset q. priority y \<le> priority (pq_top q)"
      using heap_top_max [of "length q" q] h
      unfolding is_heap_def pq_top_def by (auto simp: in_set_conv_nth)
    have top: "pq_top q \<in># mset q" using False by (simp add: pq_top_def)
    have "worker_run (steps @ [Take]) ([], []) = (pq_pop q, taken @ [pq_top q])"
      using step False by simp
    with top mx is_heap_butlast_pop(2) [OF h False] have
      "\<exists>x q'. worker_run (steps @ [Take]) ([], []) = (q', taken @ [x])
                   \<and> x \<in># mset q
                   \<and> (\<forall>y \<in># mset q. priority y \<le> priority x)
                   \<and> mset q' = mset q - {#x#}"
      by blast
    with pend False show ?thesis by simp
  qed
qed

text \<open>
  C5 as stated fails: four items of the same priority pushed in the order 0, 1, 2, 3
  are taken in the order 0, 2, 1, 3.
\<close>

theorem equal_priority_not_fifo_counterexample:
  "snd (worker_run
          [Push \<lparr>item_message = Some (LocalSlot 0), priority = 2\<rparr>,
           Push \<lparr>item_message = Some (LocalSlot 1), priority = 2\<rparr>,
           Push \<lparr>item_message = Some (LocalSlot 2), priority = 2\<rparr>,
           Push \<lparr>item_message = Some (LocalSlot 3), priority = 2\<rparr>,
           Take, Take, Take, Take] ([], []))
   = [\<lparr>item_message = Some (LocalSlot 0), priority = 2\<rparr>,
      \<lparr>item_message = Some (LocalSlot 2), priority = 2\<rparr>,
      \<lparr>item_message = Some (LocalSlot 1), priority = 2\<rparr>,
      \<lparr>item_message = Some (LocalSlot 3), priority = 2\<rparr>]"
  by code_simp

theorem worker_takes_highest_priority_witness:
  "\<exists>q'. worker_run
          [Push \<lparr>item_message = Some (LocalSlot 5), priority = 2\<rparr>,
           Push \<lparr>item_message = Some (LocalSlot 7), priority = 4\<rparr>,
           Push \<lparr>item_message = Some (LocalSlot 9), priority = 3\<rparr>,
           Take] ([], [])
         = (q', [\<lparr>item_message = Some (LocalSlot 7), priority = 4\<rparr>])
       \<and> mset q' = {#\<lparr>item_message = Some (LocalSlot 5), priority = 2\<rparr>,
                      \<lparr>item_message = Some (LocalSlot 9), priority = 3\<rparr>#}"
proof -
  have run: "worker_run
          [Push \<lparr>item_message = Some (LocalSlot 5), priority = 2\<rparr>,
           Push \<lparr>item_message = Some (LocalSlot 7), priority = 4\<rparr>,
           Push \<lparr>item_message = Some (LocalSlot 9), priority = 3\<rparr>] ([], [])
        = ([\<lparr>item_message = Some (LocalSlot 7), priority = 4\<rparr>,
            \<lparr>item_message = Some (LocalSlot 5), priority = 2\<rparr>,
            \<lparr>item_message = Some (LocalSlot 9), priority = 3\<rparr>], [])"
    by code_simp
  from worker_takes_highest_priority [OF run] obtain x q' where
    r: "worker_run
          ([Push \<lparr>item_message = Some (LocalSlot 5), priority = 2\<rparr>,
            Push \<lparr>item_message = Some (LocalSlot 7), priority = 4\<rparr>,
            Push \<lparr>item_message = Some (LocalSlot 9), priority = 3\<rparr>] @ [Take]) ([], [])
        = (q', [] @ [x])"
    and x: "x = \<lparr>item_message = Some (LocalSlot 7), priority = 4\<rparr>
            \<or> x = \<lparr>item_message = Some (LocalSlot 5), priority = 2\<rparr>
            \<or> x = \<lparr>item_message = Some (LocalSlot 9), priority = 3\<rparr>"
    and mx: "4 \<le> priority x"
    and q': "mset q' = {#\<lparr>item_message = Some (LocalSlot 7), priority = 4\<rparr>,
                         \<lparr>item_message = Some (LocalSlot 5), priority = 2\<rparr>,
                         \<lparr>item_message = Some (LocalSlot 9), priority = 3\<rparr>#} - {#x#}"
    by auto
  from x mx have "x = \<lparr>item_message = Some (LocalSlot 7), priority = 4\<rparr>" by auto
  with r q' show ?thesis by simp
qed

subsection \<open>The manager: a second shutdown is an error\<close>

declare Flush_loop.simps [simp del]

lemma wait_keeps_registry:
  assumes "\<And>w. m_loggerMap (snd (env w)) = m_loggerMap (snd w)"
  shows "m_loggerMap (snd (wait env d w)) = m_loggerMap (snd w)"
  using assms [of w] by (simp add: wait_def split_beta)

lemma Flush_loop_keeps_registry:
  "(\<And>w. m_loggerMap (snd (env w)) = m_loggerMap (snd w)) \<Longrightarrow>
     m_loggerMap (snd (Flush_loop env endTime w)) = m_loggerMap (snd w)"
proof (induction env endTime w rule: Flush_loop.induct)
  case (1 env endTime w)
  note wk = wait_keeps_registry [of env 10 w, OF "1.prems"]
  show ?case
  proof (cases "clock (snd w) < endTime")
    case True
    show ?thesis
    proof (cases "GetPendingMessageCount (fst (wait env 10 w)) = 0")
      case z: True
      with True wk show ?thesis by (subst Flush_loop.simps) (simp add: Let_def)
    next
      case nz: False
      from "1.IH" [OF True refl nz "1.prems"] wk True nz show ?thesis
        by (subst Flush_loop.simps) (simp add: Let_def)
    qed
  next
    case False
    then show ?thesis by (subst Flush_loop.simps) simp
  qed
qed

lemma Flush_keeps_registry:
  assumes "\<And>w. m_loggerMap (snd (env w)) = m_loggerMap (snd w)"
  shows "m_loggerMap (snd (Flush env timeout w)) = m_loggerMap (snd w)"
  using Flush_loop_keeps_registry [of env, OF assms] by (simp add: Flush_def Let_def)

lemma join_workers_keeps_registry:
  assumes "\<And>w. m_loggerMap (snd (env w)) = m_loggerMap (snd w)"
  shows "m_loggerMap (snd (join_workers env joinEndTime k i w)) = m_loggerMap (snd w)"
proof (induction k arbitrary: i w)
  case 0
  show ?case by simp
next
  case (Suc k)
  note wk = wait_keeps_registry [of env 0 w, OF assms]
  show ?case
    using wk by (simp add: Suc Let_def split_beta)
qed

lemma LoggerThreadPool_Shutdown_keeps_registry:
  assumes "\<And>w. m_loggerMap (snd (env w)) = m_loggerMap (snd w)"
  shows "m_loggerMap (snd (LoggerThreadPool_Shutdown env flush timeout w)) = m_loggerMap (snd w)"
  using Flush_keeps_registry [of env, OF assms] join_workers_keeps_registry [of env, OF assms]
  by (simp add: LoggerThreadPool_Shutdown_def Let_def split_beta)

text \<open>
  When the other threads leave the pointer to the registry alone, \<open>Shutdown\<close> in state
  \<open>Running\<close> with the registry in place returns \<open>Ok\<close>.
\<close>

lemma Shutdown_Running_Ok:
  assumes env: "\<And>w. m_loggerMap (snd (env w)) = m_loggerMap (snd w)"
    and "m_state m = Running" and "m_loggerMap m = Some lm"
  shows "\<exists>m1. Shutdown env waitForCompletion timeout m = Inr (Ok, m1)"
proof -
  note f = Flush_keeps_registry [of env, OF env]
  note s = LoggerThreadPool_Shutdown_keeps_registry [of env, OF env]
  define m2 where "m2 = (if waitForCompletion
                  then (case m_threadPool (m\<lparr>m_state := ShuttingDown\<rparr>) of
                          None \<Rightarrow> m\<lparr>m_state := ShuttingDown\<rparr>
                        | Some tp \<Rightarrow>
                            (case Flush env timeout (tp, m\<lparr>m_state := ShuttingDown\<rparr>) of
                               (tp1, m') \<Rightarrow> m'\<lparr>m_threadPool := Some tp1\<rparr>))
                  else m\<lparr>m_state := ShuttingDown\<rparr>)"
  have r2: "m_loggerMap m2 = Some lm"
    using assms(3) f [of timeout "(the (m_threadPool m), m\<lparr>m_state := ShuttingDown\<rparr>)"]
    by (auto simp: m2_def split_beta split: option.splits)
  define m4 where "m4 = (case m_threadPool m2 of
                    None \<Rightarrow> m2\<lparr>m_threadPool := None\<rparr>
                  | Some tp \<Rightarrow>
                      delete_thread_pool env (LoggerThreadPool_Shutdown env waitForCompletion timeout (tp, m2\<lparr>m_threadPool := None\<rparr>)))"
  have r4: "m_loggerMap m4 = Some lm"
    using r2 s [of waitForCompletion timeout "(the (m_threadPool m2), m2\<lparr>m_threadPool := None\<rparr>)"]
      s [of True 5000 "LoggerThreadPool_Shutdown env waitForCompletion timeout (the (m_threadPool m2), m2\<lparr>m_threadPool := None\<rparr>)"]
    by (auto simp: m4_def delete_thread_pool_def split: option.splits)
  show ?thesis
    using assms(2) r4 unfolding Shutdown_def Let_def m2_def [symmetric] m4_def [symmetric]
    by simp
qed

lemma Shutdown_Ok_state:
  assumes "Shutdown env w t m = Inr (Ok, m1)"
  shows "m_state m = Running" and "m_state m1 = ShutDown"
    and "\<exists>lm. m_loggerMap m1 = Some lm \<and> m_buckets lm = replicate (length (m_buckets lm)) []"
    and "m_head (m_globalSinks m1) = 0"
proof -
  show r: "m_state m = Running"
    using assms by (auto simp: Shutdown_def split: if_splits)
  show "m_state m1 = ShutDown"
    using assms by (auto simp: Shutdown_def Let_def split: if_splits option.splits)
  show "\<exists>lm. m_loggerMap m1 = Some lm \<and> m_buckets lm = replicate (length (m_buckets lm)) []"
    using assms r
    by (auto simp: Shutdown_def Let_def LoggerMap_Clear_def map_replicate_const split: option.splits)
  show "m_head (m_globalSinks m1) = 0"
    using assms r
    by (auto simp: Shutdown_def Let_def Clear_def RCU_RetireNode_def split_beta split: option.splits)
qed

lemma Shutdown_ShutDown:
  "m_state m = ShutDown \<Longrightarrow>
     Shutdown env w t m =
       Inr (Err 1 ''LogManager not initialized or already shut down, current state: ShutDown'', m)"
  by (simp add: Shutdown_def)

text \<open>
  C7. Whatever the worker threads do while the caller waits, and whatever the
  arguments of the two calls: a call of \<open>Shutdown\<close> returns \<open>Ok\<close> only from state
  \<open>Running\<close>, and it then leaves the manager in state \<open>ShutDown\<close> with every bucket of
  the registry empty and the list of global sinks empty; and a call of \<open>Shutdown\<close>
  after it returns the error with code 1 and the text \<^verbatim>\<open>LogManager not initialized or
  already shut down, current state: ShutDown\<close>, and leaves the manager, the clock and
  \<^verbatim>\<open>std::cerr\<close> exactly as they were: it flushes nothing, deletes nothing and clears
  nothing.
\<close>

theorem Shutdown_twice_is_error:
  assumes "Shutdown env waitForCompletion timeout m = Inr (Ok, m1)"
  shows "m_state m = Running
         \<and> m_state m1 = ShutDown
         \<and> (\<exists>lm. m_loggerMap m1 = Some lm \<and> m_buckets lm = replicate (length (m_buckets lm)) [])
         \<and> m_head (m_globalSinks m1) = 0
         \<and> Shutdown env2 waitForCompletion2 timeout2 m1 =
             Inr (Err 1 ''LogManager not initialized or already shut down, current state: ShutDown'', m1)"
  using Shutdown_Ok_state [OF assms] by (simp add: Shutdown_ShutDown)

theorem Shutdown_twice_witness:
  "\<exists>m1. Shutdown (\<lambda>w. w) True 5000 running_manager = Inr (Ok, m1)
        \<and> m_state m1 = ShutDown
        \<and> m_head (m_globalSinks m1) = 0
        \<and> Shutdown (\<lambda>w. w) True 5000 m1 =
            Inr (Err 1 ''LogManager not initialized or already shut down, current state: ShutDown'', m1)"
proof -
  have "\<exists>m1. Shutdown (\<lambda>w. w) True 5000 running_manager = Inr (Ok, m1)"
    by (rule Shutdown_Running_Ok [where lm = "Insert 2 ''main'' main_logger LoggerMap_ctor"])
       (simp_all add: running_manager_def)
  then obtain m1 where "Shutdown (\<lambda>w. w) True 5000 running_manager = Inr (Ok, m1)" ..
  with Shutdown_twice_is_error [OF this] show ?thesis by blast
qed

subsection \<open>The manager: RemoveLogger and the default logger\<close>

lemma AtomicString_Compare_Load:
  assumes "m_length a \<le> length (m_buffer a)"
  shows "AtomicString_Compare a str \<longleftrightarrow> str = AtomicString_Load a"
proof
  assume "AtomicString_Compare a str"
  then have "m_length a = length str" "take (m_length a) (m_buffer a) = take (m_length a) str"
    by (simp_all add: AtomicString_Compare_def Let_def split: if_splits)
  then show "str = AtomicString_Load a" by (simp add: AtomicString_Load_def)
next
  assume "str = AtomicString_Load a"
  with assms show "AtomicString_Compare a str"
    by (simp add: AtomicString_Compare_def AtomicString_Load_def Let_def)
qed

lemma Remove_loop_chain:
  "Remove_loop nm tid passed chain hpCurrent hpNext d = Inr (removed, chain1, hpCurrent1, hpNext1, d1) \<Longrightarrow>
     nm \<noteq> other \<Longrightarrow>
     filter (\<lambda>e. entry_name e = other) chain1 = filter (\<lambda>e. entry_name e = other) (passed @ chain)"
proof (induction chain arbitrary: passed hpCurrent hpNext d)
  case Nil
  then show ?case by simp
next
  case (Cons current rest)
  from Cons.prems(1) obtain cur hpC1 d1' where
    p1: "Protect (entry_addr current) tid hpCurrent d = Inr (cur, hpC1, d1')"
    by (auto split: sum.splits)
  from Cons.prems(1) p1 obtain nxt hpN1 d2 where
    p2: "Protect (case rest of [] \<Rightarrow> 0 | n # ns \<Rightarrow> entry_addr n) tid hpNext d1' = Inr (nxt, hpN1, d2)"
    by (auto split: sum.splits)
  show ?case
  proof (cases "entry_name current = nm")
    case True
    with Cons.prems p1 p2 show ?thesis by (auto split: prod.splits)
  next
    case False
    with Cons.prems(1) p1 p2 have
      "Remove_loop nm tid (passed @ [current]) rest
         (fst (HazardPointer_move_assign hpC1 hpN1 d2)) HazardPointer_ctor
         (snd (HazardPointer_move_assign hpC1 hpN1 d2)) = Inr (removed, chain1, hpCurrent1, hpNext1, d1)"
      by (simp add: split_beta)
    from Cons.IH [OF this Cons.prems(2)] show ?thesis by simp
  qed
qed

lemma Remove_loop_throws_domain_only:
  "LoggerMap_Remove nm tid lm d = (Some e, r, lm1, d1) \<Longrightarrow> lm1 = lm"
  by (auto simp: LoggerMap_Remove_def Let_def split: sum.splits prod.splits)

lemma LoggerMap_Remove_keeps_others:
  assumes "LoggerMap_Remove nm tid lm d = (e, r, lm1, d1)" and "nm \<noteq> other"
  shows "map (filter (\<lambda>e. entry_name e = other)) (m_buckets lm1)
         = map (filter (\<lambda>e. entry_name e = other)) (m_buckets lm)"
proof (cases "Remove_loop nm tid [] (m_buckets lm ! GetBucketIndex nm) HazardPointer_ctor HazardPointer_ctor d")
  case (Inl x)
  with assms(1) show ?thesis by (auto simp: LoggerMap_Remove_def Let_def split: prod.splits)
next
  case (Inr y)
  obtain removed chain1 hpC hpN d' where y: "y = (removed, chain1, hpC, hpN, d')" by (cases y) auto
  from Remove_loop_chain [OF Inr [unfolded y] assms(2)]
  have f: "filter (\<lambda>e. entry_name e = other) chain1
           = filter (\<lambda>e. entry_name e = other) (m_buckets lm ! GetBucketIndex nm)" by simp
  from assms(1) Inr y have lm1: "lm1 = lm\<lparr>m_buckets := (m_buckets lm)[GetBucketIndex nm := chain1]\<rparr>"
    by (auto simp: LoggerMap_Remove_def Let_def)
  have "(map (filter (\<lambda>e. entry_name e = other)) (m_buckets lm))
          [GetBucketIndex nm := filter (\<lambda>e. entry_name e = other) (m_buckets lm ! GetBucketIndex nm)]
        = map (filter (\<lambda>e. entry_name e = other)) (m_buckets lm)"
    by (cases "GetBucketIndex nm < length (m_buckets lm)")
       (simp_all add: list_update_same_conv list_update_beyond)
  then show ?thesis
    by (simp add: lm1 map_update f)
qed

text \<open>
  C10. Where the stored default name fits its buffer, for every name: when the manager
  is not in state \<open>Running\<close>, or the name is the current default logger name (what
  \<open>GetDefaultLoggerName\<close> returns), \<open>RemoveLogger\<close> returns without an exception and
  leaves the manager, and with it the registry and the hazard domain, as it was. And
  in every case, also when it unlinks an entry or throws, every bucket of the registry
  holds after the call the entries under the default logger name that it held before.
\<close>

theorem RemoveLogger_guarded:
  assumes "m_length (m_defaultLoggerName m) \<le> length (m_buffer (m_defaultLoggerName m))"
  shows "(m_state m \<noteq> Running \<or> nm = GetDefaultLoggerName m \<longrightarrow> RemoveLogger nm tid m = (None, m))
         \<and> GetDefaultLoggerName (snd (RemoveLogger nm tid m)) = GetDefaultLoggerName m
         \<and> entries_named (GetDefaultLoggerName m) (snd (RemoveLogger nm tid m))
             = entries_named (GetDefaultLoggerName m) m"
proof (cases "m_state m \<noteq> Running \<or> nm = GetDefaultLoggerName m")
  case True
  then have "RemoveLogger nm tid m = (None, m)"
    using assms AtomicString_Compare_Load [of "m_defaultLoggerName m" nm]
    by (auto simp: RemoveLogger_def GetDefaultLoggerName_def)
  with True show ?thesis by simp
next
  case False
  then have ne: "nm \<noteq> GetDefaultLoggerName m" and run: "m_state m = Running" by simp_all
  have cmp: "\<not> AtomicString_Compare (m_defaultLoggerName m) nm"
    using ne assms AtomicString_Compare_Load [of "m_defaultLoggerName m" nm]
    by (simp add: GetDefaultLoggerName_def)
  show ?thesis
  proof (cases "m_loggerMap m")
    case None
    with False run cmp show ?thesis by (simp add: RemoveLogger_def)
  next
    case (Some lm)
    obtain e r lm1 d1 where rm: "LoggerMap_Remove nm tid lm (m_hazardDomain m) = (e, r, lm1, d1)"
      by (cases "LoggerMap_Remove nm tid lm (m_hazardDomain m)") auto
    have res: "RemoveLogger nm tid m = (e, m\<lparr>m_loggerMap := Some lm1, m_hazardDomain := d1\<rparr>)"
      using run cmp Some rm by (simp add: RemoveLogger_def)
    from LoggerMap_Remove_keeps_others [OF rm ne] Some False show ?thesis
      by (simp add: res entries_named_def GetDefaultLoggerName_def)
  qed
qed

lemma default_name_main:
  "m_length (AtomicString_ctor ''main'') \<le> length (m_buffer (AtomicString_ctor ''main''))"
  "AtomicString_Load (AtomicString_ctor ''main'') = ''main''"
  by (simp_all add: AtomicString_ctor_def AtomicString_Store_def AtomicString_Load_def MAX_LENGTH_def
      memcpy_bytes_def Let_def)

theorem RemoveLogger_guarded_witness:
  "GetDefaultLoggerName two_loggers = ''main''
   \<and> RemoveLogger ''main'' 7 two_loggers = (None, two_loggers)
   \<and> RemoveLogger ''net'' 7 LogManager_ctor = (None, LogManager_ctor)
   \<and> entries_named ''main'' (snd (RemoveLogger ''net'' 7 two_loggers)) = entries_named ''main'' two_loggers"
  using RemoveLogger_guarded [of two_loggers "''main''" 7]
    RemoveLogger_guarded [of LogManager_ctor "''net''" 7]
    RemoveLogger_guarded [of two_loggers "''net''" 7] default_name_main
  by (simp add: two_loggers_def running_manager_def LogManager_ctor_def GetDefaultLoggerName_def)

lemma bucket_indices: "GetBucketIndex ''main'' = 106" "GetBucketIndex ''net'' = 1"
  by code_simp+

lemma find_free_slot:
  "find_slot tid (replicate MAX_HAZARD_POINTERS \<lparr>threadID = 0, hp_pointer = 0\<rparr>) 0 = Some 0"
proof -
  have "replicate MAX_HAZARD_POINTERS \<lparr>threadID = 0, hp_pointer = 0\<rparr>
        = \<lparr>threadID = 0, hp_pointer = 0\<rparr> # replicate 99 \<lparr>threadID = 0, hp_pointer = 0\<rparr>"
    by (simp add: MAX_HAZARD_POINTERS_def numeral_eq_Suc)
  then show ?thesis
    by (simp add: MAX_HAZARD_POINTERS_def del: replicate.simps replicate_Suc)
qed

lemma two_loggers_facts:
  "m_state two_loggers = Running"
  "\<not> AtomicString_Compare (m_defaultLoggerName two_loggers) ''net''"
  "m_hazardDomain two_loggers = HazardPointerDomain_ctor"
  "m_loggerMap two_loggers = Some (Insert 3 ''net'' (Logger_ctor ''net'' Info)
                               (Insert 2 ''main'' main_logger LoggerMap_ctor))"
  using AtomicString_Compare_Load [OF default_name_main(1), of "''net''"]
  by (simp_all add: two_loggers_def running_manager_def LogManager_ctor_def default_name_main)

lemma net_bucket:
  "m_buckets (Insert 3 ''net'' (Logger_ctor ''net'' Info) (Insert 2 ''main'' main_logger LoggerMap_ctor))
     ! GetBucketIndex ''net''
   = [\<lparr>entry_addr = 3, entry_name = ''net'', entry_logger = Logger_ctor ''net'' Info\<rparr>]"
  by (simp add: Insert_def bucket_indices LoggerMap_ctor_def NUM_BUCKETS_def Let_def)

lemma Remove_loop_net:
  "\<exists>hpC hpN d1. Remove_loop ''net'' 7 []
      [\<lparr>entry_addr = 3, entry_name = ''net'', entry_logger = Logger_ctor ''net'' Info\<rparr>]
      HazardPointer_ctor HazardPointer_ctor HazardPointerDomain_ctor
    = Inr (Some \<lparr>entry_addr = 3, entry_name = ''net'', entry_logger = Logger_ctor ''net'' Info\<rparr>, [],
           hpC, hpN, d1)
    \<and> map pointer (m_retiredList d1) = [3]
    \<and> map pointer (m_retiredList (HazardPointer_dtor hpC (HazardPointer_dtor hpN d1))) = [3]"
  by (simp add: find_free_slot Protect_def ProtectPointer_def Reset_def RetireNode_def
      UnprotectPointer_def Let_def HazardPointerDomain_ctor_def SCAN_THRESHOLD_def size_t_add_def
      size_t_wrap_def HazardPointer_dtor_def HazardPointer_ctor_def)

text \<open>
  A logger under another name than the default one is removed: in \<open>two_loggers\<close>,
  \<open>RemoveLogger\<close> of \<open>net\<close> empties the bucket of \<open>net\<close> and retires the entry.
\<close>

lemma RemoveLogger_removes_other:
  "fst (RemoveLogger ''net'' 7 two_loggers) = None
   \<and> entries_named ''net'' two_loggers ! GetBucketIndex ''net''
       = [\<lparr>entry_addr = 3, entry_name = ''net'', entry_logger = Logger_ctor ''net'' Info\<rparr>]
   \<and> entries_named ''net'' (snd (RemoveLogger ''net'' 7 two_loggers)) ! GetBucketIndex ''net'' = []
   \<and> map pointer (m_retiredList (m_hazardDomain (snd (RemoveLogger ''net'' 7 two_loggers)))) = [3]"
proof -
  from Remove_loop_net obtain hpC hpN d1 where
    r: "Remove_loop ''net'' 7 []
      [\<lparr>entry_addr = 3, entry_name = ''net'', entry_logger = Logger_ctor ''net'' Info\<rparr>]
      HazardPointer_ctor HazardPointer_ctor HazardPointerDomain_ctor
    = Inr (Some \<lparr>entry_addr = 3, entry_name = ''net'', entry_logger = Logger_ctor ''net'' Info\<rparr>, [],
           hpC, hpN, d1)"
    and d: "map pointer (m_retiredList (HazardPointer_dtor hpC (HazardPointer_dtor hpN d1))) = [3]"
    by auto
  have len: "GetBucketIndex ''net'' < length (m_buckets (Insert 3 ''net'' (Logger_ctor ''net'' Info)
                               (Insert 2 ''main'' main_logger LoggerMap_ctor)))"
    by (simp add: Insert_def LoggerMap_ctor_def NUM_BUCKETS_def Let_def bucket_indices)
  show ?thesis
    using d len
    by (simp add: RemoveLogger_def two_loggers_facts LoggerMap_Remove_def net_bucket r
        entries_named_def Let_def del: Remove_loop.simps)
qed

subsection \<open>The logger: which calls of Log are rejected\<close>














text \<open>
  When the thread pool has stopped or is flushing, a call that passes the test on the
  text and the level still returns true, but the message is not enqueued: it is
  released to the message pool and the queues are as they were.
\<close>

lemma Log_not_enqueued_when_stopped:
  assumes st: "m_state m \<noteq> ShutDown" and mp: "m_messagePool m = Some p" and inv: "pool_inv p"
    and nw: "chunk_size (last (m_chunks p)) * GROWTH_FACTOR < 2 ^ 64"
    and tpm: "m_threadPool m = Some tp" and stopped: "\<not> m_running tp \<or> m_flushing tp"
    and ok: "\<not> (msg = [] \<or> level_less lvl (m_level lg) \<or> level_ge lvl Off)"
  shows "\<exists>a lg' m' p'. Log hw now self lg msg lvl loc m = Inr (True, lg', m')
           \<and> m_threadPool m' = Some tp \<and> m_messagePool m' = Some p'
           \<and> valid_ptr p' a \<and> state (msg_at p' a) = Pooled \<and> \<not> used_at p' a"
proof -
  define f where "f = fill_message now (m_name lg) lvl loc msg self"
  note g = no_wrap_growth [OF nw inv]
  from Acquire_spec [OF inv] g obtain a p1 where
    acq: "Acquire p = (Some a, p1)" and a1: "acquired p1 a" by auto
  from a1 have inv1: "pool_inv p1" and v1: "valid_ptr p1 a" and u1: "used_at p1 a"
    and c1: "acquired_clean (msg_at p1 a)" by (simp_all add: acquired_def)
  define p2 where "p2 = map_msg f a p1"
  note w = write_used_slot [OF inv1 v1 u1, of f, folded p2_def]
  have s2: "state (msg_at p2 a) = Active" "refCount (msg_at p2 a) = 1"
    using c1 by (simp_all add: w(4) f_def fill_keeps_state acquired_clean_def)
  note rel = Release_finalizes [OF w(1,2,3) s2]
  have omp: "on_message_pool Acquire m = Inr (Some a, m\<lparr>m_messagePool := Some p1\<rparr>)"
    using st mp acq by (simp add: on_message_pool_def EnsureMessagePoolInitialized_def)
  have ens: "EnsureThreadPoolInitialized hw (m\<lparr>m_messagePool := Some p2\<rparr>) = m\<lparr>m_messagePool := Some p2\<rparr>"
    using tpm by (simp add: EnsureThreadPoolInitialized_def)
  have rm: "release_message a (m\<lparr>m_messagePool := Some p2\<rparr>)
            = Inr (m\<lparr>m_messagePool := Some (Release (Some a) p2)\<rparr>)"
    using st by (simp add: release_message_def on_message_pool_def EnsureMessagePoolInitialized_def)
  have tpe: "LoggerThreadPool_EnqueueMessage (Some a) (level_rank (level (msg_at p2 a))) tp
               (m\<lparr>m_messagePool := Some p2\<rparr>)
             = Inr (tp, m\<lparr>m_messagePool := Some (Release (Some a) p2)\<rparr>)"
    using stopped by (auto simp: LoggerThreadPool_EnqueueMessage_def rm)
  have enq: "EnqueueMessage hw lg (Some a) (m\<lparr>m_messagePool := Some p2\<rparr>) =
               Inr (lg\<lparr>m_totalProcessed := m_totalProcessed lg + 1\<rparr>,
                    m\<lparr>m_messagePool := Some (Release (Some a) p2), m_threadPool := Some tp\<rparr>)"
    using tpm by (simp add: EnqueueMessage_def Let_def ens tpe)
  have "Log hw now self lg msg lvl loc m =
          Inr (True, lg\<lparr>m_totalProcessed := m_totalProcessed lg + 1\<rparr>,
               m\<lparr>m_messagePool := Some (Release (Some a) p2), m_threadPool := Some tp\<rparr>)"
    using ok enq by (simp add: Log_def CreateMessage_def omp f_def p2_def)
  with rel show ?thesis by auto
qed

end
